theory Spec2Isabelle
  imports Main "HOL-Library.Multiset"
begin

section \<open>Text primitives of the host language\<close>

text \<open>
  A document is the list of its lines (\<open>document.lineCount\<close> is the length of the list,
  \<open>document.lineAt(j).text\<close> is the \<open>j\<close>-th element). A line is a \<open>string\<close>; each
  \<open>char\<close> stands for one code unit below 256. On those code units the class \<open>\s\<close> of the
  regular expressions, and the characters removed by \<open>String.prototype.trim\<close>, are
  tab, line feed, vertical tab, form feed, carriage return, space and no-break space.
\<close>

definition isWhiteSpace :: "char \<Rightarrow> bool" where
  "isWhiteSpace c \<longleftrightarrow>
     c \<in> set [CHR 0x09, CHR 0x0A, CHR 0x0B, CHR 0x0C, CHR 0x0D, CHR 0x20, CHR 0xA0]"

text \<open>The class \<open>[a-zA-Z]\<close>.\<close>

definition isLetter :: "char \<Rightarrow> bool" where
  "isLetter c \<longleftrightarrow> c \<in> set ''abcdefghijklmnopqrstuvwxyzABCDEFGHIJKLMNOPQRSTUVWXYZ''"

text \<open>The class \<open>\w\<close>, that is \<open>[A-Za-z0-9_]\<close>.\<close>

definition isWordChar :: "char \<Rightarrow> bool" where
  "isWordChar c \<longleftrightarrow> isLetter c \<or> c \<in> set ''0123456789_''"

text \<open>\<open>s.trim()\<close>\<close>

definition trim :: "string \<Rightarrow> string" where
  "trim s = rev (dropWhile isWhiteSpace (rev (dropWhile isWhiteSpace s)))"

text \<open>\<open>s.startsWith(p)\<close>, \<open>s.endsWith(p)\<close> and \<open>s.includes(c)\<close> for a one-character \<open>c\<close>.\<close>

definition startsWith :: "string \<Rightarrow> string \<Rightarrow> bool" where
  "startsWith s p \<longleftrightarrow> take (length p) s = p"

definition endsWith :: "string \<Rightarrow> string \<Rightarrow> bool" where
  "endsWith s p \<longleftrightarrow> length p \<le> length s \<and> drop (length s - length p) s = p"

definition includesChar :: "string \<Rightarrow> char \<Rightarrow> bool" where
  "includesChar s c \<longleftrightarrow> c \<in> set s"

text \<open>
  \<open>(line.match(new RegExp('\\' + c, 'g')) || []).length\<close> for a punctuation character
  \<open>c\<close>: the number of occurrences of \<open>c\<close> in the line.
\<close>

definition countMatches :: "char \<Rightarrow> string \<Rightarrow> int" where
  "countMatches c s = int (length (filter (\<lambda>d. d = c) s))"

text \<open>
  Case folding of the \<open>i\<close> flag. Without the \<open>u\<close> flag a code unit of 128 or more never
  folds to an ASCII letter, so against the ASCII letters of a pattern the folding is
  that of ASCII.
\<close>

definition foldCase :: "char \<Rightarrow> char" where
  "foldCase c =
     (case map_of (zip ''ABCDEFGHIJKLMNOPQRSTUVWXYZ'' ''abcdefghijklmnopqrstuvwxyz'') c of
        None \<Rightarrow> c | Some d \<Rightarrow> d)"

section \<open>The five patterns\<close>

text \<open>
  Each pattern is anchored at the start of the trimmed line and is modelled by a function
  that returns the capture groups of the match, or \<open>None\<close> when the pattern does not
  match. Greedy quantifiers are modelled by \<open>takeWhile\<close>/\<open>dropWhile\<close>; where giving
  characters back can make a match succeed, the model says so.
\<close>

text \<open>
  \<open>EDGES_REGEX = /^(edges|faces|points|internalField|boundary)\s*(\{|$|;)/i\<close>.
  The alternatives are tried in order; after the keyword and the white space the next
  position must be \<open>{\<close>, \<open>;\<close> or the end of the text. Group 1 is the keyword as it is
  written in the text.
\<close>

definition edgesTail :: "string \<Rightarrow> bool" where
  "edgesTail r \<longleftrightarrow>
     (let r' = dropWhile isWhiteSpace r
      in r' = [] \<or> hd r' = CHR ''{'' \<or> hd r' = CHR '';'')"

definition EDGES_REGEX :: "string \<Rightarrow> string option" where
  "EDGES_REGEX t =
     (case find (\<lambda>k. length k \<le> length t \<and> map foldCase (take (length k) t) = map foldCase k
                      \<and> edgesTail (drop (length k) t))
             [''edges'', ''faces'', ''points'', ''internalField'', ''boundary''] of
        None \<Rightarrow> None
      | Some k \<Rightarrow> Some (take (length k) t))"

text \<open>
  \<open>NAMED_BLOCK_REGEX = /^([a-zA-Z][\w]*)\s*(\{|$)/\<close>. A shorter identifier or a
  shorter run of white space is followed by a word character or by white space, never
  by \<open>{\<close> or the end, so only the longest ones can match.
\<close>

definition NAMED_BLOCK_REGEX :: "string \<Rightarrow> string option" where
  "NAMED_BLOCK_REGEX t =
     (case t of
        [] \<Rightarrow> None
      | c # cs \<Rightarrow>
          if isLetter c then
            (let r = dropWhile isWhiteSpace (dropWhile isWordChar cs)
             in if r = [] \<or> hd r = CHR ''{'' then Some (c # takeWhile isWordChar cs) else None)
          else None)"

text \<open>\<open>LIST_REGEX = /^(\w+)\s*\($/\<close>\<close>

definition LIST_REGEX :: "string \<Rightarrow> string option" where
  "LIST_REGEX t =
     (let w = takeWhile isWordChar t
      in if w \<noteq> [] \<and> dropWhile isWhiteSpace (dropWhile isWordChar t) = ''('' then Some w
         else None)"

text \<open>
  \<open>DICT_REGEX = /^(\w+)\s+\[([^\]]+)\]\s*;/\<close>. Group 2 is the text between \<open>[\<close> and
  the first \<open>]\<close>; it is not empty. After the \<open>]\<close> only white space may come before
  the \<open>;\<close>.
\<close>

definition DICT_REGEX :: "string \<Rightarrow> (string \<times> string) option" where
  "DICT_REGEX t =
     (let w = takeWhile isWordChar t;
          r1 = dropWhile isWordChar t;
          r2 = dropWhile isWhiteSpace r1
      in if w \<noteq> [] \<and> takeWhile isWhiteSpace r1 \<noteq> [] \<and> startsWith r2 ''['' then
           (let u = takeWhile (\<lambda>c. c \<noteq> CHR '']'') (tl r2);
                r3 = dropWhile (\<lambda>c. c \<noteq> CHR '']'') (tl r2)
            in if u \<noteq> [] \<and> startsWith r3 '']''
                  \<and> startsWith (dropWhile isWhiteSpace (tl r3)) '';''
               then Some (w, u) else None)
         else None)"

text \<open>
  \<open>KV_REGEX = /^([a-zA-Z][\w.]*)\s+([^;{}]+);/\<close>. The class \<open>[^;{}]\<close> contains the
  white space: when the white space after the identifier is directly followed by
  \<open>;\<close>, the pattern still matches if there are at least two white-space characters,
  \<open>\s+\<close> giving the last one back to group 2.
\<close>

definition isValueChar :: "char \<Rightarrow> bool" where
  "isValueChar c \<longleftrightarrow> c \<notin> set '';{}''"

definition KV_REGEX :: "string \<Rightarrow> (string \<times> string) option" where
  "KV_REGEX t =
     (case t of
        [] \<Rightarrow> None
      | c # cs \<Rightarrow>
          if isLetter c then
            (let isIdChar = (\<lambda>d. isWordChar d \<or> d = CHR ''.'');
                 r1 = dropWhile isIdChar cs;
                 ws = takeWhile isWhiteSpace r1;
                 r2 = dropWhile isWhiteSpace r1;
                 v = takeWhile isValueChar r2;
                 r3 = dropWhile isValueChar r2
             in if ws \<noteq> [] \<and> startsWith r3 '';'' \<and> (v \<noteq> [] \<or> 2 \<le> length ws)
                then Some (c # takeWhile isIdChar cs, if v \<noteq> [] then v else [last ws])
                else None)
          else None)"

section \<open>Positions, lines and outline nodes\<close>

record Position =
  line :: nat
  character :: nat

record Range =
  start :: Position
  end_r :: Position

text \<open>
  A \<open>TextLine\<close> of the host: its text, its range (from column 0 to its length) and the
  column of its first character that is not white space (the length of the line when
  there is none).
\<close>

record TextLine =
  text_l :: string
  range_l :: Range
  firstNonWhitespaceCharacterIndex :: nat

text \<open>The members of \<open>vscode.SymbolKind\<close> that the provider uses.\<close>

datatype SymbolKind = File | Class | Property | Interface | Constant | Array | Object | Struct

text \<open>
  A \<open>vscode.DocumentSymbol\<close>. The objects live in a heap, a list indexed by reference;
  \<open>children\<close> holds references, as the array of the source holds object references.
\<close>

record DocumentSymbol =
  name :: string
  detail :: string
  kind :: SymbolKind
  range_s :: Range
  selectionRange :: Range
  children :: "nat list"

text \<open>
  The order of positions (\<open>Position.isBefore\<close>) and the constructor of \<open>vscode.Range\<close>,
  which swaps its arguments when the first is not before the second.
\<close>

definition isBefore :: "Position \<Rightarrow> Position \<Rightarrow> bool" where
  "isBefore a b \<longleftrightarrow> line a < line b \<or> (line a = line b \<and> character a < character b)"

definition newRange :: "Position \<Rightarrow> Position \<Rightarrow> Range" where
  "newRange a b = (if isBefore a b then \<lparr>start = a, end_r = b\<rparr> else \<lparr>start = b, end_r = a\<rparr>)"

text \<open>\<open>Range.contains\<close>, for a position and for a range.\<close>

definition containsPosition :: "Range \<Rightarrow> Position \<Rightarrow> bool" where
  "containsPosition r p \<longleftrightarrow> \<not> (isBefore p (start r) \<or> isBefore (end_r r) p)"

definition containsRange :: "Range \<Rightarrow> Range \<Rightarrow> bool" where
  "containsRange r s \<longleftrightarrow> containsPosition r (start s) \<and> containsPosition r (end_r s)"

text \<open>
  What the host throws: \<open>document.lineAt\<close> when the index is not a line of the document,
  and the constructor of \<open>vscode.DocumentSymbol\<close> when the name is empty or the selection
  range is not contained in the full range.
\<close>

datatype error = IllegalLineValue | NameMustNotBeFalsy | SelectionRangeNotContained

text \<open>The object that \<open>new vscode.DocumentSymbol\<close> builds, and the constructor with its checks.\<close>

definition symbolNode ::
  "string \<Rightarrow> string \<Rightarrow> SymbolKind \<Rightarrow> Range \<Rightarrow> Range \<Rightarrow> DocumentSymbol" where
  "symbolNode n d k r sr =
     \<lparr>name = n, detail = d, kind = k, range_s = r, selectionRange = sr, children = []\<rparr>"

definition newDocumentSymbol ::
  "string \<Rightarrow> string \<Rightarrow> SymbolKind \<Rightarrow> Range \<Rightarrow> Range \<Rightarrow> error + DocumentSymbol" where
  "newDocumentSymbol n d k r sr =
     (if n = [] then Inl NameMustNotBeFalsy
      else if \<not> containsRange r sr then Inl SelectionRangeNotContained
      else Inr (symbolNode n d k r sr))"

text \<open>The assignment \<open>symbol = new vscode.DocumentSymbol(...)\<close>.\<close>

definition assignSymbol :: "error + DocumentSymbol \<Rightarrow> error + DocumentSymbol option" where
  "assignSymbol r = (case r of Inl e \<Rightarrow> Inl e | Inr s \<Rightarrow> Inr (Some s))"

definition lineAt :: "string list \<Rightarrow> int \<Rightarrow> error + TextLine" where
  "lineAt doc j =
     (if 0 \<le> j \<and> j < int (length doc) then
        (let t = doc ! nat j
         in Inr \<lparr>text_l = t,
                 range_l = \<lparr>start = \<lparr>line = nat j, character = 0\<rparr>,
                            end_r = \<lparr>line = nat j, character = length t\<rparr>\<rparr>,
                 firstNonWhitespaceCharacterIndex = length (takeWhile isWhiteSpace t)\<rparr>)
      else Inl IllegalLineValue)"

section \<open>The block-span resolver\<close>

text \<open>
  The loop of \<open>findClosingBracket\<close>, at line \<open>j\<close> with the running count \<open>open\<close>.
  The count is a signed number: a closer met at count 0 makes it negative.
\<close>

function findClosingBracketLoop ::
  "string list \<Rightarrow> char \<Rightarrow> char \<Rightarrow> nat \<Rightarrow> int \<Rightarrow> error + int" where
  "findClosingBracketLoop doc openChar closeChar j opn =
     (if j < length doc then
        (case lineAt doc (int j) of
           Inl e \<Rightarrow> Inl e
         | Inr l \<Rightarrow>
             (let line = text_l l
              in if opn = 0 \<and> trim line = [openChar] then
                   findClosingBracketLoop doc openChar closeChar (j + 1) 1
                 else
                   (let opn1 = (if opn = 0 \<and> startsWith (trim line) [openChar] then 1 else opn);
                        opn2 = opn1 + countMatches openChar line - countMatches closeChar line
                    in if opn2 = 0 then Inr (int j)
                       else findClosingBracketLoop doc openChar closeChar (j + 1) opn2)))
      else Inr (int (length doc) - 1))"
  by pat_completeness auto
termination
  by (relation "measure (\<lambda>(doc, openChar, closeChar, j, opn). length doc - j)") auto

declare findClosingBracketLoop.simps [simp del]

definition findClosingBracket ::
  "string list \<Rightarrow> nat \<Rightarrow> char \<Rightarrow> char \<Rightarrow> int \<Rightarrow> error + int" where
  "findClosingBracket doc startLine openChar closeChar initialCount =
     findClosingBracketLoop doc openChar closeChar startLine initialCount"

section \<open>The line classifier\<close>

text \<open>
  The look-ahead of the named-block branch: the loop
  \<open>for (j = i + 1; j < Math.min(i + 5, document.lineCount); j++)\<close> at index \<open>j\<close>; the
  result is the final value of \<open>foundOpeningBrace\<close>.
\<close>

function foundOpeningBrace :: "string list \<Rightarrow> nat \<Rightarrow> nat \<Rightarrow> error + bool" where
  "foundOpeningBrace doc i j =
     (if j < min (i + 5) (length doc) then
        (case lineAt doc (int j) of
           Inl e \<Rightarrow> Inl e
         | Inr l \<Rightarrow>
             (let nextLine = trim (text_l l)
              in if nextLine = ''{'' \<or> startsWith nextLine ''{'' then Inr True
                 else if nextLine \<noteq> [] \<and> \<not> startsWith nextLine ''//''
                         \<and> \<not> startsWith nextLine ''/*'' then Inr False
                 else foundOpeningBrace doc i (j + 1)))
      else Inr False)"
  by pat_completeness auto
termination
  by (relation "measure (\<lambda>(doc, i, j). min (i + 5) (length doc) - j)") auto

declare foundOpeningBrace.simps [simp del]

text \<open>
  The look-ahead of the \<open>FoamFile\<close> branch, at index \<open>j\<close>; the result is the final value
  of \<open>endLine\<close>, which starts as \<open>i\<close>.
\<close>

function foamFileEndLine :: "string list \<Rightarrow> nat \<Rightarrow> nat \<Rightarrow> error + int" where
  "foamFileEndLine doc i j =
     (if j < length doc then
        (case lineAt doc (int j) of
           Inl e \<Rightarrow> Inl e
         | Inr l \<Rightarrow>
             if includesChar (text_l l) CHR ''{'' then findClosingBracket doc j CHR ''{'' CHR ''}'' 0
             else if trim (text_l l) \<noteq> [] \<and> \<not> startsWith (trim (text_l l)) ''//'' then Inr (int i)
             else foamFileEndLine doc i (j + 1))
      else Inr (int i))"
  by pat_completeness auto
termination
  by (relation "measure (\<lambda>(doc, i, j). length doc - j)") auto

declare foamFileEndLine.simps [simp del]

text \<open>
  \<open>new vscode.DocumentSymbol(name, detail, kind,
       new vscode.Range(line.range.start, document.lineAt(endLine).range.end), line.range)\<close>
\<close>

definition spanSymbol ::
  "string list \<Rightarrow> TextLine \<Rightarrow> int \<Rightarrow> string \<Rightarrow> string \<Rightarrow> SymbolKind
     \<Rightarrow> error + DocumentSymbol option" where
  "spanSymbol doc l endLine n d k =
     (case lineAt doc endLine of
        Inl e \<Rightarrow> Inl e
      | Inr el \<Rightarrow>
          assignSymbol (newDocumentSymbol n d k
            (newRange (start (range_l l)) (end_r (range_l el))) (range_l l)))"

text \<open>
  The body of the driver loop for line \<open>i\<close>, up to the value of \<open>symbol\<close>: \<open>Inr None\<close>
  when the line is skipped (\<open>continue\<close>) or matches nothing, \<open>Inl\<close> when the host throws.
\<close>

definition lineSymbol :: "string list \<Rightarrow> nat \<Rightarrow> TextLine \<Rightarrow> error + DocumentSymbol option" where
  "lineSymbol doc i l =
     (let t = trim (text_l l)
      in if t = [] \<or> startsWith t ''//'' \<or> startsWith t ''/*'' then Inr None
         else
           (case EDGES_REGEX t of
              Some n \<Rightarrow>
                if endsWith t '';'' \<and> \<not> includesChar t CHR ''{'' then Inr None
                else
                  (case findClosingBracket doc (i + 1) CHR ''{'' CHR ''}''
                          (if includesChar t CHR ''{'' then 1 else 0) of
                     Inl e \<Rightarrow> Inl e
                   | Inr endLine \<Rightarrow> spanSymbol doc l endLine n n Struct)
            | None \<Rightarrow>
           (case NAMED_BLOCK_REGEX t of
              Some n \<Rightarrow>
                (case (if \<not> includesChar t CHR ''{'' then foundOpeningBrace doc i (i + 1)
                       else Inr True) of
                   Inl e \<Rightarrow> Inl e
                 | Inr False \<Rightarrow> Inr None
                 | Inr True \<Rightarrow>
                     (case findClosingBracket doc (i + 1) CHR ''{'' CHR ''}''
                             (if includesChar t CHR ''{'' then 1 else 0) of
                        Inl e \<Rightarrow> Inl e
                      | Inr endLine \<Rightarrow>
                          if n \<in> set [''boundary'', ''faces'', ''points'', ''edges'', ''internalField'']
                          then spanSymbol doc l endLine n n Struct
                          else if n \<in> set [''frontAndBack'', ''inlet'', ''outlet'', ''walls'',
                                            ''symmetry'']
                          then spanSymbol doc l endLine n ''boundary'' Interface
                          else spanSymbol doc l endLine n ''block'' Object))
            | None \<Rightarrow>
           (case LIST_REGEX t of
              Some n \<Rightarrow>
                (case findClosingBracket doc (i + 1) CHR ''('' CHR '')'' 1 of
                   Inl e \<Rightarrow> Inl e
                 | Inr endLine \<Rightarrow> spanSymbol doc l endLine n ''list'' Array)
            | None \<Rightarrow>
           if t = ''FoamFile'' then
             (case (if includesChar t CHR ''{'' then findClosingBracket doc (i + 1) CHR ''{'' CHR ''}'' 1
                    else foamFileEndLine doc i (i + 1)) of
                Inl e \<Rightarrow> Inl e
              | Inr endLine \<Rightarrow> spanSymbol doc l endLine ''FoamFile'' ''header'' File)
           else
           (case DICT_REGEX t of
              Some (n, u) \<Rightarrow>
                assignSymbol (newDocumentSymbol n (''['' @ trim u @ '']'') Constant
                                (range_l l) (range_l l))
            | None \<Rightarrow>
           (case KV_REGEX t of
              Some (n, u) \<Rightarrow>
                assignSymbol (newDocumentSymbol n (trim u)
                                (if n = ''class'' \<or> n = ''object'' then Class
                                 else if n = ''version'' \<or> n = ''format'' then Constant
                                 else if n = ''location'' then File
                                 else Property)
                                (range_l l) (range_l l))
            | None \<Rightarrow> Inr None))))))"

section \<open>The tree assembler and the driver\<close>

record StackEntry =
  symbol :: nat
  indent :: nat

text \<open>
  The state of a scan: the heap of the nodes created so far, the array \<open>symbols\<close> of the
  roots and the \<open>stack\<close>, both holding references. The top of the stack is the last
  element, as in the source.
\<close>

record ScanState =
  heap :: "DocumentSymbol list"
  symbols :: "nat list"
  stack :: "StackEntry list"

text \<open>The \<open>while\<close> loop of \<open>pushSymbol\<close>.\<close>

function popStack :: "StackEntry list \<Rightarrow> nat \<Rightarrow> StackEntry list" where
  "popStack stk ind =
     (if length stk > 0 \<and> indent (stk ! (length stk - 1)) \<ge> ind then popStack (butlast stk) ind
      else stk)"
  by pat_completeness auto
termination
  by (relation "measure (\<lambda>(stk, ind). length stk)") auto

declare popStack.simps [simp del]

text \<open>\<open>pushSymbol\<close>, for the node at reference \<open>r\<close>.\<close>

definition pushSymbol :: "ScanState \<Rightarrow> nat \<Rightarrow> nat \<Rightarrow> ScanState" where
  "pushSymbol st r ind =
     (let stk = popStack (stack st) ind;
          st1 = (if length stk > 0 then
                   (let p = symbol (stk ! (length stk - 1))
                    in st\<lparr>heap := (heap st)[p := (heap st ! p)\<lparr>children := children (heap st ! p) @ [r]\<rparr>]\<rparr>)
                 else st\<lparr>symbols := symbols st @ [r]\<rparr>)
      in st1\<lparr>stack := stk @ [\<lparr>symbol = r, indent = ind\<rparr>]\<rparr>)"

text \<open>One iteration of the driver loop: the node of line \<open>i\<close>, if any, is created and pushed.\<close>

definition scanLine :: "string list \<Rightarrow> ScanState \<Rightarrow> nat \<Rightarrow> error + ScanState" where
  "scanLine doc st i =
     (case lineAt doc (int i) of
        Inl e \<Rightarrow> Inl e
      | Inr l \<Rightarrow>
          (case lineSymbol doc i l of
             Inl e \<Rightarrow> Inl e
           | Inr None \<Rightarrow> Inr st
           | Inr (Some s) \<Rightarrow>
               Inr (pushSymbol (st\<lparr>heap := heap st @ [s]\<rparr>) (length (heap st))
                      (firstNonWhitespaceCharacterIndex l))))"

text \<open>The driver loop over the line indices \<open>is\<close>, in order.\<close>

fun scanLines :: "string list \<Rightarrow> nat list \<Rightarrow> ScanState \<Rightarrow> error + ScanState" where
  "scanLines doc [] st = Inr st"
| "scanLines doc (i # is) st =
     (case scanLine doc st i of Inl e \<Rightarrow> Inl e | Inr st' \<Rightarrow> scanLines doc is st')"

definition initialState :: ScanState where
  "initialState = \<lparr>heap = [], symbols = [], stack = []\<rparr>"

text \<open>
  The entry point. The source returns the array \<open>symbols\<close>; the model returns the final
  state, whose \<open>symbols\<close> are the references of the roots and whose \<open>heap\<close> holds the
  objects they refer to.
\<close>

definition provideDocumentSymbols :: "string list \<Rightarrow> error + ScanState" where
  "provideDocumentSymbols doc = scanLines doc [0..<length doc] initialState"

section \<open>Auxiliary notions for the statements\<close>

text \<open>
  The value of \<open>open\<close> at the end of one iteration of the loop of \<open>findClosingBracket\<close>
  that starts with the count \<open>opn\<close> on the line \<open>t\<close> (1 after the \<open>continue\<close>), and the
  running count after line \<open>j\<close> of a scan that starts at \<open>startLine\<close>, when the loop does
  not return before.
\<close>

definition bracketStep :: "char \<Rightarrow> char \<Rightarrow> int \<Rightarrow> string \<Rightarrow> int" where
  "bracketStep openChar closeChar opn t =
     (if opn = 0 \<and> trim t = [openChar] then 1
      else (if opn = 0 \<and> startsWith (trim t) [openChar] then 1 else opn)
             + countMatches openChar t - countMatches closeChar t)"

definition openAfter :: "string list \<Rightarrow> char \<Rightarrow> char \<Rightarrow> nat \<Rightarrow> int \<Rightarrow> nat \<Rightarrow> int" where
  "openAfter doc openChar closeChar startLine initialCount j =
     foldl (bracketStep openChar closeChar) initialCount (take (Suc j - startLine) (drop startLine doc))"

text \<open>
  The \<open>TextLine\<close> that \<open>lineAt\<close> returns for a line of the document.
\<close>

definition theLine :: "string list \<Rightarrow> nat \<Rightarrow> TextLine" where
  "theLine doc j =
     \<lparr>text_l = doc ! j,
      range_l = \<lparr>start = \<lparr>line = j, character = 0\<rparr>,
                 end_r = \<lparr>line = j, character = length (doc ! j)\<rparr>\<rparr>,
      firstNonWhitespaceCharacterIndex = length (takeWhile isWhiteSpace (doc ! j))\<rparr>"

text \<open>
  The test of the driver loop and of the look-ahead on a trimmed line: blank, or starting
  with \<open>//\<close> or \<open>/*\<close>.
\<close>

definition blankOrComment :: "string \<Rightarrow> bool" where
  "blankOrComment t \<longleftrightarrow> t = [] \<or> startsWith t ''//'' \<or> startsWith t ''/*''"

text \<open>
  Among the at most four lines that follow line \<open>i\<close>, the first one that is neither
  blank nor a comment exists and starts with \<open>{\<close>.
\<close>

definition windowOpensBlock :: "string list \<Rightarrow> nat \<Rightarrow> bool" where
  "windowOpensBlock doc i =
     (case find (\<lambda>t. \<not> blankOrComment t) (map trim (take 4 (drop (Suc i) doc))) of
        Some t \<Rightarrow> startsWith t ''{''
      | None \<Rightarrow> False)"

text \<open>
  The line on which a node starts.
\<close>

definition definingLine :: "DocumentSymbol \<Rightarrow> nat" where
  "definingLine s = line (start (range_s s))"

text \<open>
  What every node has when it is created: no children, the line's range as selection
  range, and a full range that starts where the line starts.
\<close>

definition wellShaped :: "TextLine \<Rightarrow> DocumentSymbol option \<Rightarrow> bool" where
  "wellShaped l r \<longleftrightarrow>
     (case r of None \<Rightarrow> True
      | Some s \<Rightarrow> children s = [] \<and> selectionRange s = range_l l
                  \<and> start (range_s s) = start (range_l l))"

text \<open>
  The nodes that the driver loop creates at line \<open>i\<close>: one or none.
\<close>

definition producedAt :: "string list \<Rightarrow> nat \<Rightarrow> DocumentSymbol list" where
  "producedAt doc i =
     (case lineSymbol doc i (theLine doc i) of Inr (Some s) \<Rightarrow> [s] | _ \<Rightarrow> [])"

text \<open>
  The invariant of the driver loop before the iteration for line \<open>k\<close>: the references
  held by \<open>symbols\<close>, by the children arrays and by the stack are references of the heap;
  a child is created after its parent; the roots and every children array are in
  creation order; every reference is held exactly once; the indents on the stack
  increase from bottom to top; the nodes of the heap start on increasing lines, all
  before line \<open>k\<close>.
\<close>

definition scanInvariant :: "nat \<Rightarrow> ScanState \<Rightarrow> bool" where
  "scanInvariant k st \<longleftrightarrow>
     (\<forall>r \<in> set (symbols st). r < length (heap st)) \<and>
     (\<forall>e \<in> set (stack st). symbol e < length (heap st)) \<and>
     (\<forall>p < length (heap st). \<forall>c \<in> set (children (heap st ! p)). p < c \<and> c < length (heap st)) \<and>
     sorted_wrt (<) (symbols st) \<and>
     (\<forall>p < length (heap st). sorted_wrt (<) (children (heap st ! p))) \<and>
     mset (symbols st @ concat (map children (heap st))) = mset [0..<length (heap st)] \<and>
     sorted_wrt (<) (map indent (stack st)) \<and>
     sorted_wrt (<) (map definingLine (heap st)) \<and>
     (\<forall>s \<in> set (heap st). definingLine s < k)"

text \<open>
  \<open>stack[stack.length - 1].symbol.children.push(symbol)\<close> on the heap: the node at \<open>p\<close>
  gets the reference \<open>r\<close> as its last child.
\<close>

definition addChild :: "DocumentSymbol list \<Rightarrow> nat \<Rightarrow> nat \<Rightarrow> DocumentSymbol list" where
  "addChild h p r = h[p := (h ! p)\<lparr>children := children (h ! p) @ [r]\<rparr>]"

text \<open>
  A node as it was created, without the children it was given later.
\<close>

definition clearChildren :: "DocumentSymbol \<Rightarrow> DocumentSymbol" where
  "clearChildren s = s\<lparr>children := []\<rparr>"

text \<open>
  The indents on the stack, from bottom to top, after the first \<open>k\<close> iterations of the
  driver loop.
\<close>

definition stackIndentsAfter :: "string list \<Rightarrow> nat \<Rightarrow> nat list option" where
  "stackIndentsAfter doc k =
     (case scanLines doc [0..<k] initialState of
        Inl e \<Rightarrow> None
      | Inr st \<Rightarrow> Some (map indent (stack st)))"

text \<open>
  The look-ahead as the specification words it: among the lines after line \<open>i\<close> that are
  neither blank nor comments, one of the first four starts with \<open>{\<close>.
\<close>

definition lookaheadAsSpecified :: "string list \<Rightarrow> nat \<Rightarrow> bool" where
  "lookaheadAsSpecified doc i =
     list_ex (\<lambda>t. startsWith t ''{'')
       (take 4 (filter (\<lambda>t. \<not> blankOrComment t) (map trim (drop (Suc i) doc))))"

text \<open>
  \<open>line.range\<close> for line \<open>i\<close>.
\<close>

definition lineRange :: "string list \<Rightarrow> nat \<Rightarrow> Range" where
  "lineRange doc i = range_l (theLine doc i)"

text \<open>
  The lines on which the nodes of a sequence of references start.
\<close>

definition definingLines :: "ScanState \<Rightarrow> nat list \<Rightarrow> nat list" where
  "definingLines st rs = map (\<lambda>r. definingLine (heap st ! r)) rs"

text \<open>
  The references of the subtree of the node at \<open>r\<close>, the node first and then the subtrees
  of its children from left to right, and the flattening of the returned tree. The guard
  on the children makes the recursion total on any heap; on the heaps of a scan it
  removes nothing (\<open>childrenBounded\<close>).
\<close>

function preorder :: "DocumentSymbol list \<Rightarrow> nat \<Rightarrow> nat list" where
  "preorder h r = r # concat (map (preorder h) (filter (\<lambda>c. r < c \<and> c < length h) (children (h ! r))))"
  by pat_completeness auto
termination
  by (relation "measure (\<lambda>(h, r). length h - r)") auto

declare preorder.simps [simp del]

definition flatten :: "ScanState \<Rightarrow> nat list" where
  "flatten st = concat (map (preorder (heap st)) (symbols st))"

text \<open>
  Every child is a reference of the heap, greater than the reference of its parent.
\<close>

definition childrenBounded :: "DocumentSymbol list \<Rightarrow> bool" where
  "childrenBounded h \<longleftrightarrow> (\<forall>q < length h. \<forall>c \<in> set (children (h ! q)). q < c \<and> c < length h)"

text \<open>
  \<open>ps\<close> is an initial part of the rightmost path of the forest with the roots \<open>rs\<close>: the
  last root, its last child, and so on.
\<close>

fun spine :: "DocumentSymbol list \<Rightarrow> nat list \<Rightarrow> nat list \<Rightarrow> bool" where
  "spine h rs [] = True"
| "spine h rs (p # ps) = (rs \<noteq> [] \<and> last rs = p \<and> spine h (children (h ! p)) ps)"

text \<open>
  The second invariant of the driver loop: the flattened tree lists the references in
  creation order, and the stack is the rightmost path of the tree.
\<close>

definition traversalInvariant :: "ScanState \<Rightarrow> bool" where
  "traversalInvariant st \<longleftrightarrow>
     flatten st = [0..<length (heap st)] \<and>
     spine (heap st) (symbols st) (map symbol (stack st))"

section \<open>Properties\<close>

subsection \<open>The block-span resolver\<close>

text \<open>
  The loop returns the first line after which the running count is 0, and the last
  line of the document when there is none; its result is a line of the document.
\<close>

lemma lineAt_Inr:
  "j < length doc \<Longrightarrow> lineAt doc (int j) =
     Inr \<lparr>text_l = doc ! j,
          range_l = \<lparr>start = \<lparr>line = j, character = 0\<rparr>,
                     end_r = \<lparr>line = j, character = length (doc ! j)\<rparr>\<rparr>,
          firstNonWhitespaceCharacterIndex = length (takeWhile isWhiteSpace (doc ! j))\<rparr>"
  by (simp add: lineAt_def Let_def)

lemma openAfter_start:
  "j < length doc \<Longrightarrow> openAfter doc oc cc j opn j = bracketStep oc cc opn (doc ! j)"
  by (simp add: openAfter_def take_Suc_conv_app_nth Cons_nth_drop_Suc [symmetric])

lemma openAfter_next:
  "j < k \<Longrightarrow> j < length doc \<Longrightarrow>
     openAfter doc oc cc j opn k = openAfter doc oc cc (Suc j) (bracketStep oc cc opn (doc ! j)) k"
proof -
  assume a: "j < k" "j < length doc"
  then have "Suc k - j = Suc (Suc k - Suc j)" by arith
  moreover have "drop j doc = doc ! j # drop (Suc j) doc"
    using a by (simp add: Cons_nth_drop_Suc)
  ultimately show ?thesis by (simp add: openAfter_def)
qed

lemma find_upt_step:
  "j < n \<Longrightarrow> find P [j..<n] = (if P j then Some j else find P [Suc j..<n])"
  by (simp add: upt_conv_Cons)

lemma findClosingBracketLoop_unfold:
  "j < length doc \<Longrightarrow>
   findClosingBracketLoop doc oc cc j opn =
     (if opn = 0 \<and> trim (doc ! j) = [oc] then findClosingBracketLoop doc oc cc (Suc j) 1
      else if bracketStep oc cc opn (doc ! j) = 0 then Inr (int j)
      else findClosingBracketLoop doc oc cc (Suc j) (bracketStep oc cc opn (doc ! j)))"
  by (subst findClosingBracketLoop.simps) (simp add: lineAt_Inr Let_def bracketStep_def)

lemma findClosingBracketLoop_end:
  "\<not> j < length doc \<Longrightarrow> findClosingBracketLoop doc oc cc j opn = Inr (int (length doc) - 1)"
  by (subst findClosingBracketLoop.simps) simp

lemma findClosingBracketLoop_char:
  "findClosingBracketLoop doc oc cc j opn =
     Inr (case find (\<lambda>k. openAfter doc oc cc j opn k = 0) [j..<length doc] of
            Some k \<Rightarrow> int k | None \<Rightarrow> int (length doc) - 1)"
proof (induction "length doc - j" arbitrary: j opn)
  case 0
  then show ?case by (simp add: findClosingBracketLoop_end)
next
  case (Suc n)
  then have lt: "j < length doc" and n: "n = length doc - Suc j" by arith+
  let ?s = "bracketStep oc cc opn (doc ! j)"
  have cong: "find (\<lambda>k. openAfter doc oc cc j opn k = 0) [Suc j..<length doc] =
              find (\<lambda>k. openAfter doc oc cc (Suc j) ?s k = 0) [Suc j..<length doc]"
    by (rule find_cong) (use lt in \<open>auto simp: openAfter_next\<close>)
  have one: "opn = 0 \<and> trim (doc ! j) = [oc] \<Longrightarrow> ?s = 1"
    by (simp add: bracketStep_def)
  show ?case
    using lt cong one Suc.hyps(1) [OF n]
    by (auto simp: findClosingBracketLoop_unfold find_upt_step openAfter_start)
qed

lemma lineAt_theLine: "j < length doc \<Longrightarrow> lineAt doc (int j) = Inr (theLine doc j)"
  by (simp add: lineAt_Inr theLine_def)

lemma lineAt_int_theLine:
  "0 \<le> e \<Longrightarrow> e < int (length doc) \<Longrightarrow> lineAt doc e = Inr (theLine doc (nat e))"
  using lineAt_theLine [of "nat e" doc] by simp

lemma findClosingBracket_range:
  assumes "doc \<noteq> []"
  shows "\<exists>r. findClosingBracket doc j oc cc c = Inr r \<and> 0 \<le> r \<and> r < int (length doc) \<and>
             (int j \<le> r \<or> r = int (length doc) - 1)"
proof (cases "find (\<lambda>k. openAfter doc oc cc j c k = 0) [j..<length doc]")
  case None
  then show ?thesis
    using assms by (simp add: findClosingBracket_def findClosingBracketLoop_char)
next
  case (Some k)
  then have "k \<in> set [j..<length doc]"
    by (auto simp: find_Some_iff)
  then show ?thesis
    using Some by (simp add: findClosingBracket_def findClosingBracketLoop_char)
qed

lemma findClosingBracket_after:
  assumes "i < length doc"
  shows "\<exists>r. findClosingBracket doc (Suc i) oc cc c = Inr r \<and> int i \<le> r \<and> r < int (length doc)"
proof -
  from assms have ne: "doc \<noteq> []" by auto
  obtain r where r: "findClosingBracket doc (Suc i) oc cc c = Inr r" "r < int (length doc)"
      "int (Suc i) \<le> r \<or> r = int (length doc) - 1"
    using findClosingBracket_range [OF ne, of "Suc i" oc cc c] by blast
  from r(3) assms have "int i \<le> r" by auto
  with r(1,2) show ?thesis by blast
qed

subsection \<open>The look-aheads\<close>

lemma foundOpeningBrace_unfold:
  "j < min (i + 5) (length doc) \<Longrightarrow>
   foundOpeningBrace doc i j =
     (if startsWith (trim (doc ! j)) ''{'' then Inr True
      else if \<not> blankOrComment (trim (doc ! j)) then Inr False
      else foundOpeningBrace doc i (Suc j))"
  by (subst foundOpeningBrace.simps)
     (auto simp: lineAt_theLine theLine_def Let_def blankOrComment_def startsWith_def)

lemma foundOpeningBrace_end:
  "\<not> j < min (i + 5) (length doc) \<Longrightarrow> foundOpeningBrace doc i j = Inr False"
  by (subst foundOpeningBrace.simps) auto

lemma brace_not_blankOrComment: "startsWith t ''{'' \<Longrightarrow> \<not> blankOrComment t"
  by (cases t) (auto simp: blankOrComment_def startsWith_def)

lemma foundOpeningBrace_char:
  "foundOpeningBrace doc i j =
     Inr (case find (\<lambda>t. \<not> blankOrComment t) (map trim (take (i + 5 - j) (drop j doc))) of
            Some t \<Rightarrow> startsWith t ''{''
          | None \<Rightarrow> False)"
proof (induction "min (i + 5) (length doc) - j" arbitrary: j)
  case 0
  then have a: "\<not> j < min (i + 5) (length doc)" by arith
  from 0 have b: "take (i + 5 - j) (drop j doc) = []" by (cases "i + 5 \<le> j") auto
  show ?case unfolding foundOpeningBrace_end [OF a] b by simp
next
  case (Suc n)
  then have lt: "j < min (i + 5) (length doc)" and n: "n = min (i + 5) (length doc) - Suc j"
    by arith+
  from lt have "i + 5 - j = Suc (i + 5 - Suc j)" by arith
  moreover from lt have "drop j doc = doc ! j # drop (Suc j) doc"
    by (simp add: Cons_nth_drop_Suc)
  ultimately have split: "take (i + 5 - j) (drop j doc) = doc ! j # take (i + 5 - Suc j) (drop (Suc j) doc)"
    by simp
  show ?case
    using lt Suc.hyps(1) [OF n] brace_not_blankOrComment [of "trim (doc ! j)"]
    by (auto simp: foundOpeningBrace_unfold split)
qed

lemma foamFileEndLine_range:
  "i < length doc \<Longrightarrow> i < j \<Longrightarrow>
   \<exists>r. foamFileEndLine doc i j = Inr r \<and> int i \<le> r \<and> r < int (length doc)"
proof (induction "length doc - j" arbitrary: j)
  case 0
  then show ?case by (subst foamFileEndLine.simps) simp
next
  case (Suc n)
  then have lt: "j < length doc" and n: "n = length doc - Suc j" and sj: "i < Suc j" by arith+
  from Suc.prems have ne: "doc \<noteq> []" by auto
  obtain r where r: "findClosingBracket doc j CHR ''{'' CHR ''}'' 0 = Inr r" "r < int (length doc)"
      "int j \<le> r \<or> r = int (length doc) - 1"
    using findClosingBracket_range [OF ne, of j "CHR ''{''" "CHR ''}''" 0] by blast
  from r(3) Suc.prems have ri: "int i \<le> r" by auto
  show ?case
    using lt Suc.prems Suc.hyps(1) [OF n Suc.prems(1) sj] r(1,2) ri
    by (subst foamFileEndLine.simps) (auto simp: lineAt_theLine)
qed

subsection \<open>Ranges and the constructor of a node\<close>

lemma newRange_lines:
  assumes "i \<le> e"
  shows "newRange (start (range_l (theLine doc i))) (end_r (range_l (theLine doc e))) =
           \<lparr>start = \<lparr>line = i, character = 0\<rparr>, end_r = \<lparr>line = e, character = length (doc ! e)\<rparr>\<rparr>"
proof (cases "i < e")
  case True
  then show ?thesis by (simp add: newRange_def isBefore_def theLine_def)
next
  case False
  with assms have "i = e" by simp
  then show ?thesis by (simp add: newRange_def isBefore_def theLine_def)
qed

lemma containsRange_lines:
  assumes "i \<le> e"
  shows "containsRange \<lparr>start = \<lparr>line = i, character = 0\<rparr>, end_r = \<lparr>line = e, character = length (doc ! e)\<rparr>\<rparr>
           (range_l (theLine doc i))"
proof (cases "i < e")
  case True
  then show ?thesis
    by (simp add: containsRange_def containsPosition_def isBefore_def theLine_def)
next
  case False
  with assms have "i = e" by simp
  then show ?thesis
    by (simp add: containsRange_def containsPosition_def isBefore_def theLine_def)
qed

lemma containsRange_line: "containsRange (range_l (theLine doc i)) (range_l (theLine doc i))"
  by (simp add: containsRange_def containsPosition_def isBefore_def theLine_def)

lemma newDocumentSymbol_line:
  "n \<noteq> [] \<Longrightarrow>
   assignSymbol (newDocumentSymbol n d k (range_l (theLine doc i)) (range_l (theLine doc i))) =
     Inr (Some (symbolNode n d k (range_l (theLine doc i)) (range_l (theLine doc i))))"
  by (simp add: newDocumentSymbol_def assignSymbol_def containsRange_line)

lemma spanSymbol_Some:
  assumes "int i \<le> e" "e < int (length doc)" "n \<noteq> []"
  shows "spanSymbol doc (theLine doc i) e n d k =
     Inr (Some (symbolNode n d k
            \<lparr>start = \<lparr>line = i, character = 0\<rparr>,
             end_r = \<lparr>line = nat e, character = length (doc ! nat e)\<rparr>\<rparr>
            (range_l (theLine doc i))))"
proof -
  from assms have e: "0 \<le> e" "i \<le> nat e" by simp_all
  show ?thesis
    using assms(3) containsRange_lines [OF e(2), of doc]
    by (simp add: spanSymbol_def lineAt_int_theLine [OF e(1) assms(2)] newRange_lines [OF e(2)]
          newDocumentSymbol_def assignSymbol_def)
qed

subsection \<open>The branches of the line classifier\<close>

text \<open>One equation for each branch of the chain of tests, under the tests that lead to it.\<close>

lemma lineSymbol_skip:
  "blankOrComment (trim (text_l l)) \<Longrightarrow> lineSymbol doc i l = Inr None"
  by (simp add: lineSymbol_def Let_def blankOrComment_def)

lemma lineSymbol_edges:
  "\<not> blankOrComment (trim (text_l l)) \<Longrightarrow> EDGES_REGEX (trim (text_l l)) = Some n \<Longrightarrow>
   c = (if includesChar (trim (text_l l)) CHR ''{'' then 1 else 0) \<Longrightarrow>
   lineSymbol doc i l =
     (if endsWith (trim (text_l l)) '';'' \<and> \<not> includesChar (trim (text_l l)) CHR ''{'' then Inr None
      else (case findClosingBracket doc (Suc i) CHR ''{'' CHR ''}'' c of
              Inl e \<Rightarrow> Inl e
            | Inr endLine \<Rightarrow> spanSymbol doc l endLine n n Struct))"
  by (simp add: lineSymbol_def Let_def blankOrComment_def)

lemma lineSymbol_named:
  "\<not> blankOrComment (trim (text_l l)) \<Longrightarrow> EDGES_REGEX (trim (text_l l)) = None \<Longrightarrow>
   NAMED_BLOCK_REGEX (trim (text_l l)) = Some n \<Longrightarrow>
   c = (if includesChar (trim (text_l l)) CHR ''{'' then 1 else 0) \<Longrightarrow>
   fb = (if \<not> includesChar (trim (text_l l)) CHR ''{'' then foundOpeningBrace doc i (Suc i)
         else Inr True) \<Longrightarrow>
   lineSymbol doc i l =
     (case fb of
        Inl e \<Rightarrow> Inl e
      | Inr False \<Rightarrow> Inr None
      | Inr True \<Rightarrow>
          (case findClosingBracket doc (Suc i) CHR ''{'' CHR ''}'' c of
             Inl e \<Rightarrow> Inl e
           | Inr endLine \<Rightarrow>
               if n \<in> set [''boundary'', ''faces'', ''points'', ''edges'', ''internalField'']
               then spanSymbol doc l endLine n n Struct
               else if n \<in> set [''frontAndBack'', ''inlet'', ''outlet'', ''walls'', ''symmetry'']
               then spanSymbol doc l endLine n ''boundary'' Interface
               else spanSymbol doc l endLine n ''block'' Object))"
  by (simp add: lineSymbol_def Let_def blankOrComment_def cong: sum.case_cong bool.case_cong)

lemma lineSymbol_list:
  "\<not> blankOrComment (trim (text_l l)) \<Longrightarrow> EDGES_REGEX (trim (text_l l)) = None \<Longrightarrow>
   NAMED_BLOCK_REGEX (trim (text_l l)) = None \<Longrightarrow> LIST_REGEX (trim (text_l l)) = Some n \<Longrightarrow>
   lineSymbol doc i l =
     (case findClosingBracket doc (Suc i) CHR ''('' CHR '')'' 1 of
        Inl e \<Rightarrow> Inl e
      | Inr endLine \<Rightarrow> spanSymbol doc l endLine n ''list'' Array)"
  by (simp add: lineSymbol_def Let_def blankOrComment_def)

lemma lineSymbol_foamFile:
  "\<not> blankOrComment (trim (text_l l)) \<Longrightarrow> EDGES_REGEX (trim (text_l l)) = None \<Longrightarrow>
   NAMED_BLOCK_REGEX (trim (text_l l)) = None \<Longrightarrow> LIST_REGEX (trim (text_l l)) = None \<Longrightarrow>
   trim (text_l l) = ''FoamFile'' \<Longrightarrow>
   lineSymbol doc i l =
     (case foamFileEndLine doc i (Suc i) of
        Inl e \<Rightarrow> Inl e
      | Inr endLine \<Rightarrow> spanSymbol doc l endLine ''FoamFile'' ''header'' File)"
  by (simp add: lineSymbol_def Let_def blankOrComment_def includesChar_def)

lemma lineSymbol_single:
  "\<not> blankOrComment (trim (text_l l)) \<Longrightarrow> EDGES_REGEX (trim (text_l l)) = None \<Longrightarrow>
   NAMED_BLOCK_REGEX (trim (text_l l)) = None \<Longrightarrow> LIST_REGEX (trim (text_l l)) = None \<Longrightarrow>
   trim (text_l l) \<noteq> ''FoamFile'' \<Longrightarrow>
   lineSymbol doc i l =
     (case DICT_REGEX (trim (text_l l)) of
        Some (n, u) \<Rightarrow>
          assignSymbol (newDocumentSymbol n (''['' @ trim u @ '']'') Constant (range_l l) (range_l l))
      | None \<Rightarrow>
          (case KV_REGEX (trim (text_l l)) of
             Some (n, u) \<Rightarrow>
               assignSymbol (newDocumentSymbol n (trim u)
                            (if n = ''class'' \<or> n = ''object'' then Class
                             else if n = ''version'' \<or> n = ''format'' then Constant
                             else if n = ''location'' then File
                             else Property)
                            (range_l l) (range_l l))
           | None \<Rightarrow> Inr None))"
  by (simp add: lineSymbol_def Let_def blankOrComment_def)

text \<open>The names that the patterns capture are not empty.\<close>

lemma find_SomeD: "find P xs = Some k \<Longrightarrow> k \<in> set xs \<and> P k"
  by (induction xs) (auto split: if_splits)

lemma EDGES_REGEX_name: "EDGES_REGEX t = Some n \<Longrightarrow> n \<noteq> []"
proof -
  assume a: "EDGES_REGEX t = Some n"
  then obtain k where k: "find (\<lambda>k. length k \<le> length t \<and> map foldCase (take (length k) t) = map foldCase k
                      \<and> edgesTail (drop (length k) t))
             [''edges'', ''faces'', ''points'', ''internalField'', ''boundary''] = Some k"
      "n = take (length k) t"
    by (auto simp: EDGES_REGEX_def split: option.splits)
  note d = find_SomeD [OF k(1)]
  from d have "k \<in> set [''edges'', ''faces'', ''points'', ''internalField'', ''boundary'']"
    by (rule conjunct1)
  then have "0 < length k" by auto
  moreover from d have "length k \<le> length t" by blast
  ultimately show "n \<noteq> []" using k(2) by auto
qed

lemma NAMED_BLOCK_REGEX_name: "NAMED_BLOCK_REGEX t = Some n \<Longrightarrow> n \<noteq> []"
  by (auto simp: NAMED_BLOCK_REGEX_def Let_def split: list.splits if_splits)

lemma LIST_REGEX_name: "LIST_REGEX t = Some n \<Longrightarrow> n \<noteq> []"
  by (auto simp: LIST_REGEX_def Let_def split: if_splits)

lemma DICT_REGEX_name: "DICT_REGEX t = Some (n, u) \<Longrightarrow> n \<noteq> []"
  by (auto simp: DICT_REGEX_def Let_def split: if_splits)

lemma KV_REGEX_name: "KV_REGEX t = Some (n, u) \<Longrightarrow> n \<noteq> []"
  by (auto simp: KV_REGEX_def Let_def split: list.splits if_splits)

subsection \<open>The classifier never fails\<close>

lemma wellShaped_None: "wellShaped l None"
  by (simp add: wellShaped_def)

lemma spanSymbol_shape:
  assumes "int i \<le> e" "e < int (length doc)" "n \<noteq> []"
  shows "\<exists>r. spanSymbol doc (theLine doc i) e n d k = Inr r \<and> wellShaped (theLine doc i) r"
  unfolding spanSymbol_Some [OF assms]
  by (simp add: wellShaped_def symbolNode_def theLine_def)

lemma lineSymbol_total:
  assumes "i < length doc"
  shows "\<exists>r. lineSymbol doc i (theLine doc i) = Inr r \<and> wellShaped (theLine doc i) r"
proof -
  let ?l = "theLine doc i"
  let ?t = "trim (text_l ?l)"
  note fcb = findClosingBracket_after [OF assms]
  show ?thesis
  proof (cases "blankOrComment ?t")
    case True
    then show ?thesis by (simp add: lineSymbol_skip wellShaped_None)
  next
    case nb: False
    show ?thesis
    proof (cases "EDGES_REGEX ?t")
      case (Some n)
      define c :: int where "c = (if includesChar ?t CHR ''{'' then 1 else 0)"
      obtain r where r: "findClosingBracket doc (Suc i) CHR ''{'' CHR ''}'' c = Inr r"
          "int i \<le> r" "r < int (length doc)"
        using fcb by blast
      show ?thesis
        using spanSymbol_shape [OF r(2,3) EDGES_REGEX_name [OF Some]]
        by (simp add: lineSymbol_edges [OF nb Some c_def] r(1) wellShaped_None)
    next
      case e: None
      show ?thesis
      proof (cases "NAMED_BLOCK_REGEX ?t")
        case (Some n)
        define c :: int where "c = (if includesChar ?t CHR ''{'' then 1 else 0)"
        define fb where "fb = (if \<not> includesChar ?t CHR ''{'' then foundOpeningBrace doc i (Suc i)
            else Inr True)"
        obtain r where r: "findClosingBracket doc (Suc i) CHR ''{'' CHR ''}'' c = Inr r"
            "int i \<le> r" "r < int (length doc)"
          using fcb by blast
        obtain b where b: "fb = Inr b"
          by (cases "includesChar ?t CHR ''{''") (simp_all add: fb_def foundOpeningBrace_char)
        show ?thesis
          using spanSymbol_shape [OF r(2,3) NAMED_BLOCK_REGEX_name [OF Some]]
          by (cases b) (simp_all add: lineSymbol_named [OF nb e Some c_def fb_def] r(1) b wellShaped_None)
      next
        case nm: None
        show ?thesis
        proof (cases "LIST_REGEX ?t")
          case (Some n)
          obtain r where r: "findClosingBracket doc (Suc i) CHR ''('' CHR '')'' 1 = Inr r"
              "int i \<le> r" "r < int (length doc)"
            using fcb by blast
          show ?thesis
            using spanSymbol_shape [OF r(2,3) LIST_REGEX_name [OF Some]]
            by (simp add: lineSymbol_list [OF nb e nm Some] r(1))
        next
          case li: None
          show ?thesis
          proof (cases "?t = ''FoamFile''")
            case True
            obtain r where r: "foamFileEndLine doc i (Suc i) = Inr r" "int i \<le> r" "r < int (length doc)"
              using foamFileEndLine_range [OF assms lessI] by blast
            have "''FoamFile'' \<noteq> []" by simp
            from spanSymbol_shape [OF r(2,3) this] show ?thesis
              by (simp add: lineSymbol_foamFile [OF nb e nm li True] r(1))
          next
            case False
            show ?thesis
            proof (cases "DICT_REGEX ?t")
              case (Some nu)
              obtain n u where nu: "nu = (n, u)" by (cases nu)
              show ?thesis
                using DICT_REGEX_name [OF Some [unfolded nu]]
                by (simp add: lineSymbol_single [OF nb e nm li False] Some nu newDocumentSymbol_line
                      wellShaped_def symbolNode_def)
            next
              case d: None
              show ?thesis
              proof (cases "KV_REGEX ?t")
                case None
                then show ?thesis
                  by (simp add: lineSymbol_single [OF nb e nm li False] d wellShaped_None)
              next
                case (Some nu)
                obtain n u where nu: "nu = (n, u)" by (cases nu)
                show ?thesis
                  using KV_REGEX_name [OF Some [unfolded nu]]
                  by (simp add: lineSymbol_single [OF nb e nm li False] d Some nu newDocumentSymbol_line
                        wellShaped_def symbolNode_def)
              qed
            qed
          qed
        qed
      qed
    qed
  qed
qed

subsection \<open>The tree assembler\<close>

text \<open>
  The pop loop leaves an initial part of the stack, whose indents are all smaller than
  the indent of the node to push.
\<close>

lemma popStack_Nil: "popStack [] ind = []"
  by (subst popStack.simps) simp

lemma popStack_snoc:
  "popStack (xs @ [x]) ind = (if ind \<le> indent x then popStack xs ind else xs @ [x])"
  by (subst popStack.simps) simp

lemma popStack_subset: "set (popStack stk ind) \<subseteq> set stk"
  by (induction stk rule: rev_induct) (auto simp: popStack_Nil popStack_snoc)

lemma popStack_sorted:
  "sorted_wrt (<) (map indent stk) \<Longrightarrow>
     sorted_wrt (<) (map indent (popStack stk ind)) \<and> (\<forall>e \<in> set (popStack stk ind). indent e < ind)"
proof (induction stk rule: rev_induct)
  case Nil
  then show ?case by (simp add: popStack_Nil)
next
  case (snoc x xs)
  from snoc.prems have xs: "sorted_wrt (<) (map indent xs)"
    and lt: "\<forall>y \<in> set xs. indent y < indent x"
    by (simp_all add: sorted_wrt_append)
  show ?case
  proof (cases "ind \<le> indent x")
    case True
    then show ?thesis using snoc.IH [OF xs] by (simp add: popStack_snoc)
  next
    case False
    then have "\<forall>e \<in> set (xs @ [x]). indent e < ind"
      using lt by auto
    then show ?thesis using False snoc.prems by (simp add: popStack_snoc)
  qed
qed

lemma pushSymbol_stack:
  "stack (pushSymbol st r ind) = popStack (stack st) ind @ [\<lparr>symbol = r, indent = ind\<rparr>]"
  by (simp add: pushSymbol_def Let_def)

lemma pushSymbol_root:
  "popStack (stack st) ind = [] \<Longrightarrow>
   pushSymbol st r ind = st\<lparr>symbols := symbols st @ [r], stack := [\<lparr>symbol = r, indent = ind\<rparr>]\<rparr>"
  by (simp add: pushSymbol_def Let_def)

lemma pushSymbol_child:
  "popStack (stack st) ind \<noteq> [] \<Longrightarrow> p = symbol (last (popStack (stack st) ind)) \<Longrightarrow>
   pushSymbol st r ind =
     st\<lparr>heap := (heap st)[p := (heap st ! p)\<lparr>children := children (heap st ! p) @ [r]\<rparr>],
        stack := popStack (stack st) ind @ [\<lparr>symbol = r, indent = ind\<rparr>]\<rparr>"
  by (simp add: pushSymbol_def Let_def last_conv_nth)

lemma mset_children_update:
  "p < length h \<Longrightarrow>
   mset (concat (map children (h[p := (h ! p)\<lparr>children := children (h ! p) @ [r]\<rparr>]))) =
     add_mset r (mset (concat (map children h)))"
proof (induction h arbitrary: p)
  case Nil
  then show ?case by simp
next
  case (Cons x xs)
  then show ?case by (cases p) simp_all
qed

lemma map_definingLine_update:
  "map definingLine (h[p := (h ! p)\<lparr>children := cs\<rparr>]) = map definingLine h"
proof (induction h arbitrary: p)
  case Nil
  then show ?case by simp
next
  case (Cons x xs)
  then show ?case by (cases p) (simp_all add: definingLine_def)
qed

lemma sorted_wrt_snoc_less:
  "sorted_wrt (<) xs \<Longrightarrow> \<forall>x \<in> set xs. x < (r::nat) \<Longrightarrow> sorted_wrt (<) (xs @ [r])"
  by (simp add: sorted_wrt_append)

subsection \<open>The invariant of the driver loop\<close>

lemma inv_unfold:
  assumes "scanInvariant k st"
  shows "\<forall>r \<in> set (symbols st). r < length (heap st)"
    "\<forall>e \<in> set (stack st). symbol e < length (heap st)"
    "\<forall>p < length (heap st). \<forall>c \<in> set (children (heap st ! p)). p < c \<and> c < length (heap st)"
    "sorted_wrt (<) (symbols st)"
    "\<forall>p < length (heap st). sorted_wrt (<) (children (heap st ! p))"
    "mset (symbols st @ concat (map children (heap st))) = mset [0..<length (heap st)]"
    "sorted_wrt (<) (map indent (stack st))"
    "sorted_wrt (<) (map definingLine (heap st))"
    "\<forall>s \<in> set (heap st). definingLine s < k"
  using assms unfolding scanInvariant_def by blast+

lemma children_snoc_bound:
  assumes "\<forall>q < length h. \<forall>c \<in> set (children (h ! q)). q < c \<and> c < Suc (length h)"
    and "children s = []"
  shows "\<forall>q < Suc (length h). \<forall>c \<in> set (children ((h @ [s]) ! q)). q < c \<and> c < Suc (length h)"
proof (intro allI impI ballI)
  fix q c
  assume q: "q < Suc (length h)" and c: "c \<in> set (children ((h @ [s]) ! q))"
  show "q < c \<and> c < Suc (length h)"
  proof (cases "q < length h")
    case True
    with c have "c \<in> set (children (h ! q))" by (simp add: nth_append)
    with assms(1) True show ?thesis by blast
  next
    case False
    with q have "q = length h" by simp
    with c assms(2) show ?thesis by simp
  qed
qed

lemma children_root_sorted:
  assumes "\<forall>q < length h. sorted_wrt (<) (children (h ! q))"
    and "children s = []"
  shows "\<forall>q < Suc (length h). sorted_wrt (<) (children ((h @ [s]) ! q))"
proof (intro allI impI)
  fix q
  assume q: "q < Suc (length h)"
  show "sorted_wrt (<) (children ((h @ [s]) ! q))"
  proof (cases "q < length h")
    case True
    with assms(1) show ?thesis by (simp add: nth_append)
  next
    case False
    with q have "q = length h" by simp
    with assms(2) show ?thesis by simp
  qed
qed

lemma length_addChild: "length (addChild h p r) = length h"
  by (simp add: addChild_def)

lemma children_addChild:
  "q < length h \<Longrightarrow>
   children (addChild h p r ! q) = (if q = p then children (h ! p) @ [r] else children (h ! q))"
  by (simp add: addChild_def nth_list_update)

lemma children_child_bound:
  assumes "\<forall>q < length h. \<forall>c \<in> set (children (h ! q)). q < c \<and> c < length h"
    and "p < length h"
  shows "\<forall>q < length h. \<forall>c \<in> set (children (addChild h p (length h) ! q)). q < c \<and> c < Suc (length h)"
proof (intro allI impI ballI)
  fix q c
  assume q: "q < length h" and c: "c \<in> set (children (addChild h p (length h) ! q))"
  from c q have "c \<in> set (children (h ! q)) \<or> (q = p \<and> c = length h)"
    by (auto simp: children_addChild split: if_splits)
  then show "q < c \<and> c < Suc (length h)"
  proof
    assume "c \<in> set (children (h ! q))"
    with assms(1) q have "q < c \<and> c < length h" by blast
    then show ?thesis by simp
  next
    assume "q = p \<and> c = length h"
    with assms(2) show ?thesis by simp
  qed
qed

lemma children_child_sorted:
  assumes "\<forall>q < length h. \<forall>c \<in> set (children (h ! q)). q < c \<and> c < length h"
    and "\<forall>q < length h. sorted_wrt (<) (children (h ! q))"
    and "p < length h"
  shows "\<forall>q < length h. sorted_wrt (<) (children (addChild h p (length h) ! q))"
proof (intro allI impI)
  fix q
  assume q: "q < length h"
  show "sorted_wrt (<) (children (addChild h p (length h) ! q))"
  proof (cases "q = p")
    case True
    have "\<forall>c \<in> set (children (h ! p)). c < length h"
      using assms(1,3) by blast
    moreover have "sorted_wrt (<) (children (h ! p))"
      using assms(2,3) by blast
    ultimately show ?thesis
      using q True by (simp add: children_addChild sorted_wrt_append)
  next
    case False
    with assms(2) q show ?thesis by (simp add: children_addChild)
  qed
qed

lemma mset_children_addChild:
  "p < length h \<Longrightarrow>
   mset (concat (map children (addChild h p r))) = add_mset r (mset (concat (map children h)))"
  by (simp add: addChild_def mset_children_update)

lemma map_definingLine_addChild: "map definingLine (addChild h p r) = map definingLine h"
  by (simp add: addChild_def map_definingLine_update)

lemma pushSymbol_new_root:
  "popStack (stack st) ind = [] \<Longrightarrow>
   pushSymbol (st\<lparr>heap := heap st @ [s]\<rparr>) (length (heap st)) ind =
     st\<lparr>heap := heap st @ [s], symbols := symbols st @ [length (heap st)],
        stack := [\<lparr>symbol = length (heap st), indent = ind\<rparr>]\<rparr>"
  by (simp add: pushSymbol_root)

lemma pushSymbol_new_child:
  assumes "popStack (stack st) ind \<noteq> []"
    and "symbol (last (popStack (stack st) ind)) < length (heap st)"
  shows "pushSymbol (st\<lparr>heap := heap st @ [s]\<rparr>) (length (heap st)) ind =
     st\<lparr>heap := addChild (heap st) (symbol (last (popStack (stack st) ind))) (length (heap st)) @ [s],
        stack := popStack (stack st) ind @ [\<lparr>symbol = length (heap st), indent = ind\<rparr>]\<rparr>"
  using assms
  by (simp add: pushSymbol_child [where p = "symbol (last (popStack (stack st) ind))"]
        addChild_def list_update_append1 nth_append)

lemma scanInvariantI:
  assumes "\<forall>r \<in> set (symbols st). r < length (heap st)"
    "\<forall>e \<in> set (stack st). symbol e < length (heap st)"
    "\<forall>p < length (heap st). \<forall>c \<in> set (children (heap st ! p)). p < c \<and> c < length (heap st)"
    "sorted_wrt (<) (symbols st)"
    "\<forall>p < length (heap st). sorted_wrt (<) (children (heap st ! p))"
    "mset (symbols st @ concat (map children (heap st))) = mset [0..<length (heap st)]"
    "sorted_wrt (<) (map indent (stack st))"
    "sorted_wrt (<) (map definingLine (heap st))"
    "\<forall>s \<in> set (heap st). definingLine s < k"
  shows "scanInvariant k st"
  unfolding scanInvariant_def using assms by blast

lemma scanInvariant_push:
  assumes inv: "scanInvariant k st"
    and s: "children s = []" "definingLine s = k"
  shows "scanInvariant (Suc k) (pushSymbol (st\<lparr>heap := heap st @ [s]\<rparr>) (length (heap st)) ind)"
proof -
  let ?h = "heap st" and ?n = "length (heap st)"
  let ?stk = "popStack (stack st) ind"
  let ?st' = "pushSymbol (st\<lparr>heap := heap st @ [s]\<rparr>) (length (heap st)) ind"
  note i = inv_unfold [OF inv]
  have stk_sub: "\<forall>e \<in> set ?stk. symbol e < ?n"
    using i(2) popStack_subset by blast
  have sk: "stack ?st' = ?stk @ [\<lparr>symbol = ?n, indent = ind\<rparr>]"
    by (simp add: pushSymbol_stack)
  have g2: "\<forall>e \<in> set (?stk @ [\<lparr>symbol = ?n, indent = ind\<rparr>]). symbol e < Suc ?n"
    using stk_sub by (auto simp: less_Suc_eq)
  have g7: "sorted_wrt (<) (map indent (?stk @ [\<lparr>symbol = ?n, indent = ind\<rparr>]))"
    using popStack_sorted [OF i(7), of ind] by (simp add: sorted_wrt_append)
  have lines: "sorted_wrt (<) (map definingLine ?h @ [definingLine s])"
    using i(8,9) s by (simp add: sorted_wrt_append)
  have lines_lt: "\<forall>x \<in> set (map definingLine ?h @ [definingLine s]). x < Suc k"
    using i(9) s by (auto simp: less_Suc_eq)
  have up: "add_mset ?n (mset [0..<?n]) = mset [0..<Suc ?n]"
    by simp
  have i3': "\<forall>q < ?n. \<forall>c \<in> set (children (?h ! q)). q < c \<and> c < Suc ?n"
    using i(3) by (blast intro: less_SucI)
  show ?thesis
  proof (cases "?stk = []")
    case True
    note eq = pushSymbol_new_root [OF True, of s]
    have hp: "heap ?st' = ?h @ [s]" and sy: "symbols ?st' = symbols st @ [?n]"
      by (simp_all add: eq)
    have lenH: "length (?h @ [s]) = Suc ?n" by simp
    have g1: "\<forall>r \<in> set (symbols st @ [?n]). r < Suc ?n"
      using i(1) by (auto simp: less_Suc_eq)
    note g3 = children_snoc_bound [OF i3' s(1)]
    note g4 = sorted_wrt_snoc_less [OF i(4) i(1)]
    note g5 = children_root_sorted [OF i(5) s(1)]
    have "mset ((symbols st @ [?n]) @ concat (map children (?h @ [s]))) =
            add_mset ?n (mset (symbols st @ concat (map children ?h)))"
      using s(1) by simp
    also have "\<dots> = add_mset ?n (mset [0..<?n])"
      by (simp only: i(6))
    finally have g6: "mset ((symbols st @ [?n]) @ concat (map children (?h @ [s]))) =
        mset [0..<Suc ?n]"
      by (simp only: up)
    have g8: "sorted_wrt (<) (map definingLine (?h @ [s]))"
      using lines by simp
    have g9: "\<forall>x \<in> set (?h @ [s]). definingLine x < Suc k"
      using lines_lt by simp
    show ?thesis
      by (rule scanInvariantI; unfold hp sy sk lenH) (fact g1 g2 g3 g4 g5 g6 g7 g8 g9)+
  next
    case False
    define p where "p = symbol (last ?stk)"
    have p: "p < ?n"
      using False stk_sub by (simp add: p_def)
    define h' where "h' = addChild ?h p ?n"
    have eq: "?st' = st\<lparr>heap := h' @ [s], stack := ?stk @ [\<lparr>symbol = ?n, indent = ind\<rparr>]\<rparr>"
      using pushSymbol_new_child [OF False, of s] p by (simp add: p_def h'_def)
    have hp: "heap ?st' = h' @ [s]" and sy: "symbols ?st' = symbols st"
      by (simp_all add: eq)
    have len: "length h' = ?n" by (simp add: h'_def length_addChild)
    have lenH: "length (h' @ [s]) = Suc ?n" by (simp add: len)
    have g1: "\<forall>r \<in> set (symbols st). r < Suc ?n"
      using i(1) by (auto simp: less_Suc_eq)
    have b: "\<forall>q < length h'. \<forall>c \<in> set (children (h' ! q)). q < c \<and> c < Suc (length h')"
      unfolding h'_def length_addChild by (rule children_child_bound [OF i(3) p])
    note g3 = children_snoc_bound [OF b s(1), unfolded len]
    have srt: "\<forall>q < length h'. sorted_wrt (<) (children (h' ! q))"
      unfolding h'_def length_addChild by (rule children_child_sorted [OF i(3) i(5) p])
    note g5 = children_root_sorted [OF srt s(1), unfolded len]
    have "mset (symbols st @ concat (map children (h' @ [s]))) =
            add_mset ?n (mset (symbols st @ concat (map children ?h)))"
      using s(1) p by (simp add: h'_def mset_children_addChild)
    also have "\<dots> = add_mset ?n (mset [0..<?n])"
      by (simp only: i(6))
    finally have g6: "mset (symbols st @ concat (map children (h' @ [s]))) = mset [0..<Suc ?n]"
      by (simp only: up)
    have l1: "map definingLine h' = map definingLine ?h"
      by (simp add: h'_def map_definingLine_addChild)
    have g8: "sorted_wrt (<) (map definingLine (h' @ [s]))"
      using lines by (simp add: l1)
    have g9: "\<forall>x \<in> set (h' @ [s]). definingLine x < Suc k"
    proof
      fix x assume "x \<in> set (h' @ [s])"
      then have "definingLine x \<in> set (map definingLine h' @ [definingLine s])" by auto
      with lines_lt show "definingLine x < Suc k" by (simp only: l1)
    qed
    show ?thesis
      by (rule scanInvariantI; unfold hp sy sk lenH) (fact g1 g2 g3 i(4) g5 g6 g7 g8 g9)+
  qed
qed

subsection \<open>The driver loop\<close>

text \<open>
  Every iteration succeeds, keeps the invariant and appends to the heap the node of its
  line, if there is one; it changes the nodes already in the heap only by giving them
  children.
\<close>

lemma scanInvariant_initial: "scanInvariant 0 initialState"
  by (simp add: scanInvariant_def initialState_def)

lemma scanInvariant_mono: "scanInvariant k st \<Longrightarrow> scanInvariant (Suc k) st"
  unfolding scanInvariant_def by (blast intro: less_SucI)

lemma theLine_start: "start (range_l (theLine doc i)) = \<lparr>line = i, character = 0\<rparr>"
  by (simp add: theLine_def)

lemma producedAt_cases [consumes 1, case_names none some]:
  assumes "i < length doc"
  obtains (none) "lineSymbol doc i (theLine doc i) = Inr None" "producedAt doc i = []"
  | (some) s where "lineSymbol doc i (theLine doc i) = Inr (Some s)" "producedAt doc i = [s]"
      "children s = []" "definingLine s = i" "selectionRange s = range_l (theLine doc i)"
proof -
  obtain r where r: "lineSymbol doc i (theLine doc i) = Inr r" "wellShaped (theLine doc i) r"
    using lineSymbol_total [OF assms] by blast
  show ?thesis
  proof (cases r)
    case None
    with r show ?thesis by (intro none) (simp_all add: producedAt_def)
  next
    case (Some s)
    with r(2) have "children s = []" "start (range_s s) = start (range_l (theLine doc i))"
        "selectionRange s = range_l (theLine doc i)"
      by (simp_all add: wellShaped_def)
    then show ?thesis
      using r(1) Some by (intro some [of s]) (simp_all add: producedAt_def definingLine_def theLine_start)
  qed
qed

lemma map_clearChildren_addChild: "map clearChildren (addChild h p r) = map clearChildren h"
proof (induction h arbitrary: p)
  case Nil
  then show ?case by (simp add: addChild_def)
next
  case (Cons x xs)
  then show ?case by (cases p) (simp_all add: addChild_def clearChildren_def)
qed

lemma heap_pushSymbol:
  assumes "\<forall>e \<in> set (stack st). symbol e < length (heap st)" "children s = []"
  shows "map clearChildren (heap (pushSymbol (st\<lparr>heap := heap st @ [s]\<rparr>) (length (heap st)) ind)) =
         map clearChildren (heap st) @ [s]"
proof (cases "popStack (stack st) ind = []")
  case True
  then show ?thesis
    using assms(2) by (simp add: pushSymbol_new_root clearChildren_def)
next
  case False
  then have "last (popStack (stack st) ind) \<in> set (stack st)"
    using popStack_subset [of "stack st" ind] last_in_set by blast
  with assms(1) have "symbol (last (popStack (stack st) ind)) < length (heap st)"
    by blast
  then show ?thesis
    using assms(2) by (simp add: pushSymbol_new_child [OF False] map_clearChildren_addChild clearChildren_def)
qed

lemma scanLine_step:
  assumes i: "i < length doc" and inv: "scanInvariant i st"
  shows "\<exists>st'. scanLine doc st i = Inr st' \<and> scanInvariant (Suc i) st' \<and>
           map clearChildren (heap st') = map clearChildren (heap st) @ producedAt doc i"
  using i
proof (cases rule: producedAt_cases)
  case none
  then show ?thesis
    using scanInvariant_mono [OF inv] by (simp add: scanLine_def lineAt_theLine [OF i])
next
  case (some s)
  have eq: "scanLine doc st i =
      Inr (pushSymbol (st\<lparr>heap := heap st @ [s]\<rparr>) (length (heap st))
             (firstNonWhitespaceCharacterIndex (theLine doc i)))"
    using some(1) by (simp add: scanLine_def lineAt_theLine [OF i])
  show ?thesis
    unfolding eq
    using scanInvariant_push [OF inv some(3,4)] heap_pushSymbol [OF inv_unfold(2) [OF inv] some(3)]
    by (simp only: some(2) sum.inject simp_thms ex_simps)
qed

lemma scanLines_upt:
  assumes "n \<le> length doc" "k \<le> n" "scanInvariant k st"
  shows "\<exists>st'. scanLines doc [k..<n] st = Inr st' \<and> scanInvariant n st' \<and>
           map clearChildren (heap st') = map clearChildren (heap st) @ concat (map (producedAt doc) [k..<n])"
  using assms
proof (induction "n - k" arbitrary: k st)
  case 0
  then show ?case by simp
next
  case (Suc d)
  then have k: "k < n" "k < length doc" and d: "d = n - Suc k" "Suc k \<le> n" by arith+
  obtain st1 where st1: "scanLine doc st k = Inr st1" "scanInvariant (Suc k) st1"
      "map clearChildren (heap st1) = map clearChildren (heap st) @ producedAt doc k"
    using scanLine_step [OF k(2) Suc.prems(3)] by blast
  obtain st' where st': "scanLines doc [Suc k..<n] st1 = Inr st'" "scanInvariant n st'"
      "map clearChildren (heap st') = map clearChildren (heap st1) @ concat (map (producedAt doc) [Suc k..<n])"
    using Suc.hyps(1) [OF d(1) Suc.prems(1) d(2) st1(2)] by blast
  have "scanLines doc [k..<n] st = Inr st'"
    using k st1(1) st'(1) by (simp add: upt_conv_Cons)
  moreover have "map clearChildren (heap st') =
      map clearChildren (heap st) @ concat (map (producedAt doc) [k..<n])"
    using k st1(3) st'(3) by (simp add: upt_conv_Cons)
  ultimately show ?case using st'(2) by blast
qed

lemma provideDocumentSymbols_total:
  "\<exists>st. provideDocumentSymbols doc = Inr st \<and> scanInvariant (length doc) st \<and>
        map clearChildren (heap st) = concat (map (producedAt doc) [0..<length doc])"
  using scanLines_upt [OF le_refl le0 scanInvariant_initial, of doc]
  by (simp add: provideDocumentSymbols_def initialState_def)

subsection \<open>Lines with a single-line node\<close>

lemma text_theLine: "text_l (theLine doc i) = doc ! i"
  by (simp add: theLine_def)

lemma producedAt_single:
  assumes "t = trim (doc ! i)" "\<not> blankOrComment t" "EDGES_REGEX t = None"
    "NAMED_BLOCK_REGEX t = None" "LIST_REGEX t = None" "t \<noteq> ''FoamFile''"
  shows "producedAt doc i =
     (case DICT_REGEX t of
        Some (n, u) \<Rightarrow>
          [symbolNode n (''['' @ trim u @ '']'') Constant (lineRange doc i) (lineRange doc i)]
      | None \<Rightarrow>
          (case KV_REGEX t of
             Some (n, u) \<Rightarrow>
               [symbolNode n (trim u)
                  (if n = ''class'' \<or> n = ''object'' then Class
                   else if n = ''version'' \<or> n = ''format'' then Constant
                   else if n = ''location'' then File
                   else Property)
                  (lineRange doc i) (lineRange doc i)]
           | None \<Rightarrow> []))"
proof -
  from assms(1) have t: "trim (doc ! i) = t" by simp
  note ls = lineSymbol_single [where l = "theLine doc i" and doc = doc and i = i,
      unfolded text_theLine t, OF assms(2-6)]
  show ?thesis
  proof (cases "DICT_REGEX t")
    case (Some nu)
    obtain n u where nu: "nu = (n, u)" by (cases nu)
    show ?thesis
      using DICT_REGEX_name [OF Some [unfolded nu]]
      by (simp add: producedAt_def ls Some nu lineRange_def newDocumentSymbol_line)
  next
    case d: None
    show ?thesis
    proof (cases "KV_REGEX t")
      case None
      then show ?thesis
        by (simp add: producedAt_def ls d)
    next
      case (Some nu)
      obtain n u where nu: "nu = (n, u)" by (cases nu)
      show ?thesis
        using KV_REGEX_name [OF Some [unfolded nu]]
        by (simp add: producedAt_def ls d Some nu lineRange_def newDocumentSymbol_line)
    qed
  qed
qed

lemma produced_in_heap:
  assumes "i < length doc" "s \<in> set (producedAt doc i)"
  shows "\<exists>st. provideDocumentSymbols doc = Inr st \<and> s \<in> set (map clearChildren (heap st))"
proof -
  obtain st where st: "provideDocumentSymbols doc = Inr st"
      "map clearChildren (heap st) = concat (map (producedAt doc) [0..<length doc])"
    using provideDocumentSymbols_total [of doc] by blast
  have "s \<in> set (concat (map (producedAt doc) [0..<length doc]))"
    using assms by auto
  with st show ?thesis by (simp only: exI [of _ st] simp_thms)
qed

lemma kv_line_facts:
  "\<not> blankOrComment ''key value;''" "EDGES_REGEX ''key value;'' = None"
  "NAMED_BLOCK_REGEX ''key value;'' = None" "LIST_REGEX ''key value;'' = None"
  "''key value;'' \<noteq> ''FoamFile''" "DICT_REGEX ''key value;'' = None"
  "KV_REGEX ''key value;'' = Some (''key'', ''value'')" "trim ''value'' = ''value''"
  by code_simp+

lemma internalField_line_facts:
  "\<not> blankOrComment ''internalField uniform 0;''"
  "EDGES_REGEX ''internalField uniform 0;'' = None"
  "NAMED_BLOCK_REGEX ''internalField uniform 0;'' = None"
  "LIST_REGEX ''internalField uniform 0;'' = None"
  "''internalField uniform 0;'' \<noteq> ''FoamFile''"
  "DICT_REGEX ''internalField uniform 0;'' = None"
  "KV_REGEX ''internalField uniform 0;'' = Some (''internalField'', ''uniform 0'')"
  "trim ''uniform 0'' = ''uniform 0''"
  by code_simp+

lemma nu_value_line_facts:
  "\<not> blankOrComment ''nu [0 2 -1 0 0 0 0] 1e-05;''"
  "EDGES_REGEX ''nu [0 2 -1 0 0 0 0] 1e-05;'' = None"
  "NAMED_BLOCK_REGEX ''nu [0 2 -1 0 0 0 0] 1e-05;'' = None"
  "LIST_REGEX ''nu [0 2 -1 0 0 0 0] 1e-05;'' = None"
  "''nu [0 2 -1 0 0 0 0] 1e-05;'' \<noteq> ''FoamFile''"
  "DICT_REGEX ''nu [0 2 -1 0 0 0 0] 1e-05;'' = None"
  "KV_REGEX ''nu [0 2 -1 0 0 0 0] 1e-05;'' = Some (''nu'', ''[0 2 -1 0 0 0 0] 1e-05'')"
  "trim ''[0 2 -1 0 0 0 0] 1e-05'' = ''[0 2 -1 0 0 0 0] 1e-05''"
  by code_simp+

lemma nu_unit_line_facts:
  "\<not> blankOrComment ''nu [0 2 -1 0 0 0 0];''"
  "EDGES_REGEX ''nu [0 2 -1 0 0 0 0];'' = None"
  "NAMED_BLOCK_REGEX ''nu [0 2 -1 0 0 0 0];'' = None"
  "LIST_REGEX ''nu [0 2 -1 0 0 0 0];'' = None"
  "''nu [0 2 -1 0 0 0 0];'' \<noteq> ''FoamFile''"
  "DICT_REGEX ''nu [0 2 -1 0 0 0 0];'' = Some (''nu'', ''0 2 -1 0 0 0 0'')"
  "trim ''0 2 -1 0 0 0 0'' = ''0 2 -1 0 0 0 0''"
  by code_simp+

lemma producedAt_kv_line:
  assumes "trim (doc ! i) = ''key value;''"
  shows "producedAt doc i =
           [symbolNode ''key'' ''value'' Property (lineRange doc i) (lineRange doc i)]"
  using producedAt_single [OF assms [symmetric] kv_line_facts(1-5)]
  by (simp add: kv_line_facts(6-8))

lemma producedAt_internalField_line:
  assumes "trim (doc ! i) = ''internalField uniform 0;''"
  shows "producedAt doc i =
           [symbolNode ''internalField'' ''uniform 0'' Property
              (lineRange doc i) (lineRange doc i)]"
  using producedAt_single [OF assms [symmetric] internalField_line_facts(1-5)]
  by (simp add: internalField_line_facts(6-8))

lemma producedAt_nu_value_line:
  assumes "trim (doc ! i) = ''nu [0 2 -1 0 0 0 0] 1e-05;''"
  shows "producedAt doc i =
           [symbolNode ''nu'' ''[0 2 -1 0 0 0 0] 1e-05'' Property
              (lineRange doc i) (lineRange doc i)]"
  using producedAt_single [OF assms [symmetric] nu_value_line_facts(1-5)]
  by (simp add: nu_value_line_facts(6-8))

lemma producedAt_nu_unit_line:
  assumes "trim (doc ! i) = ''nu [0 2 -1 0 0 0 0];''"
  shows "producedAt doc i =
           [symbolNode ''nu'' ''[0 2 -1 0 0 0 0]'' Constant
              (lineRange doc i) (lineRange doc i)]"
  using producedAt_single [OF assms [symmetric] nu_unit_line_facts(1-5)]
  by (simp add: nu_unit_line_facts(6-7))

subsection \<open>References and defining lines\<close>

lemma sorted_refs_lines:
  assumes "sorted_wrt (<) rs" "\<forall>r \<in> set rs. r < length h" "sorted_wrt (<) (map definingLine h)"
  shows "sorted_wrt (<) (map (\<lambda>r. definingLine (h ! r)) rs)"
proof -
  have step: "definingLine (h ! a) < definingLine (h ! b)" if "a < b" "b < length h" for a b
  proof -
    from assms(3) have "\<forall>i j. i < j \<longrightarrow> j < length (map definingLine h) \<longrightarrow>
        map definingLine h ! i < map definingLine h ! j"
      by (simp only: sorted_wrt_iff_nth_less)
    then have "map definingLine h ! a < map definingLine h ! b"
      using that by (metis length_map)
    then show ?thesis using that by simp
  qed
  have "sorted_wrt (\<lambda>x y. definingLine (h ! x) < definingLine (h ! y)) rs"
  proof (rule sorted_wrt_mono_rel [OF _ assms(1)])
    fix x y assume "x \<in> set rs" "y \<in> set rs" "x < y"
    with assms(2) show "definingLine (h ! x) < definingLine (h ! y)"
      by (metis step)
  qed
  then show ?thesis by (simp only: sorted_wrt_map)
qed

lemma example_scan:
  "provideDocumentSymbols [''name'', ''{'', ''  key value;'', ''}'', ''''] =
     Inr \<lparr>heap =
            [\<lparr>name = ''name'', detail = ''block'', kind = Object,
              range_s = \<lparr>start = \<lparr>line = 0, character = 0\<rparr>,
                         end_r = \<lparr>line = 3, character = 1\<rparr>\<rparr>,
              selectionRange = \<lparr>start = \<lparr>line = 0, character = 0\<rparr>,
                                end_r = \<lparr>line = 0, character = 4\<rparr>\<rparr>,
              children = [1]\<rparr>,
             \<lparr>name = ''key'', detail = ''value'', kind = Property,
              range_s = \<lparr>start = \<lparr>line = 2, character = 0\<rparr>,
                         end_r = \<lparr>line = 2, character = 12\<rparr>\<rparr>,
              selectionRange = \<lparr>start = \<lparr>line = 2, character = 0\<rparr>,
                                end_r = \<lparr>line = 2, character = 12\<rparr>\<rparr>,
              children = []\<rparr>],
          symbols = [0],
          stack = [\<lparr>symbol = 0, indent = 0\<rparr>, \<lparr>symbol = 1, indent = 2\<rparr>]\<rparr>"
  by code_simp

subsection \<open>Named blocks\<close>

lemma named_not_blankOrComment:
  assumes "NAMED_BLOCK_REGEX t = Some n"
  shows "\<not> blankOrComment t"
proof (cases t)
  case Nil
  with assms show ?thesis by (simp add: NAMED_BLOCK_REGEX_def)
next
  case (Cons c cs)
  with assms have "isLetter c"
    by (simp add: NAMED_BLOCK_REGEX_def split: if_splits)
  moreover have "\<not> isLetter CHR ''/''" by code_simp
  ultimately have "c \<noteq> CHR ''/''" by blast
  with Cons show ?thesis by (simp add: blankOrComment_def startsWith_def)
qed

lemma foundOpeningBrace_window:
  "foundOpeningBrace doc i (Suc i) = Inr (windowOpensBlock doc i)"
proof -
  have "i + 5 - Suc i = 4" by simp
  then show ?thesis
    by (simp only: foundOpeningBrace_char windowOpensBlock_def)
qed

lemma producedAt_named:
  assumes i: "i < length doc"
    and n: "NAMED_BLOCK_REGEX (trim (doc ! i)) = Some n"
    and e: "EDGES_REGEX (trim (doc ! i)) = None"
    and b: "\<not> includesChar (trim (doc ! i)) CHR ''{''"
  shows "if windowOpensBlock doc i then \<exists>s. producedAt doc i = [s] \<and> name s = n
         else lineSymbol doc i (theLine doc i) = Inr None"
proof -
  let ?l = "theLine doc i"
  have t: "text_l ?l = doc ! i" by (rule text_theLine)
  obtain r where r: "findClosingBracket doc (Suc i) CHR ''{'' CHR ''}'' 0 = Inr r"
      "int i \<le> r" "r < int (length doc)"
    using findClosingBracket_after [OF i] by blast
  have eq: "lineSymbol doc i ?l =
     (case Inr (windowOpensBlock doc i) of
        Inl e \<Rightarrow> Inl e
      | Inr False \<Rightarrow> Inr None
      | Inr True \<Rightarrow>
          (case findClosingBracket doc (Suc i) CHR ''{'' CHR ''}'' 0 of
             Inl e \<Rightarrow> Inl e
           | Inr endLine \<Rightarrow>
               if n \<in> set [''boundary'', ''faces'', ''points'', ''edges'', ''internalField'']
               then spanSymbol doc ?l endLine n n Struct
               else if n \<in> set [''frontAndBack'', ''inlet'', ''outlet'', ''walls'', ''symmetry'']
               then spanSymbol doc ?l endLine n ''boundary'' Interface
               else spanSymbol doc ?l endLine n ''block'' Object))"
    by (rule lineSymbol_named [where l = ?l])
       (use n e b named_not_blankOrComment [OF n] in \<open>simp_all add: t foundOpeningBrace_window\<close>)
  show ?thesis
  proof (cases "windowOpensBlock doc i")
    case False
    then show ?thesis by (simp add: eq)
  next
    case True
    let ?A = "n \<in> set [''boundary'', ''faces'', ''points'', ''edges'', ''internalField'']"
    let ?B = "n \<in> set [''frontAndBack'', ''inlet'', ''outlet'', ''walls'', ''symmetry'']"
    have sp: "\<exists>s. spanSymbol doc ?l r n d k = Inr (Some s) \<and> name s = n" for d k
      by (simp add: spanSymbol_Some [OF r(2,3) NAMED_BLOCK_REGEX_name [OF n]] symbolNode_def)
    have ls: "lineSymbol doc i ?l =
        (if ?A then spanSymbol doc ?l r n n Struct
         else if ?B then spanSymbol doc ?l r n ''boundary'' Interface
         else spanSymbol doc ?l r n ''block'' Object)"
      using True by (simp only: eq r(1) sum.case bool.case)
    have "\<exists>s. lineSymbol doc i ?l = Inr (Some s) \<and> name s = n"
    proof (cases ?A)
      case True
      then show ?thesis using sp [of n Struct] by (simp only: ls if_True)
    next
      case a: False
      show ?thesis
      proof (cases ?B)
        case True
        then show ?thesis using a sp [of "''boundary''" Interface] by (simp only: ls if_True if_False)
      next
        case False
        then show ?thesis using a sp [of "''block''" Object] by (simp only: ls if_False)
      qed
    qed
    then obtain s where "lineSymbol doc i ?l = Inr (Some s)" "name s = n"
      by blast
    then show ?thesis
      using True by (simp add: producedAt_def)
  qed
qed

subsection \<open>The flattened tree\<close>

text \<open>
  A push appends the new node to the flattening: the node becomes the last child of the
  top of the stack, which lies on the rightmost path of the tree, or the last root.
\<close>

lemma preorder_bounded:
  assumes "childrenBounded h" "r < length h"
  shows "preorder h r = r # concat (map (preorder h) (children (h ! r)))"
proof -
  have "\<forall>c \<in> set (children (h ! r)). r < c \<and> c < length h"
    using assms unfolding childrenBounded_def by blast
  then have "filter (\<lambda>c. r < c \<and> c < length h) (children (h ! r)) = children (h ! r)"
    by (simp only: filter_True)
  then show ?thesis
    by (subst preorder.simps) (simp only:)
qed

lemma preorder_head: "r \<in> set (preorder h r)"
  by (subst preorder.simps) simp

lemma preorder_child:
  assumes "childrenBounded h" "r < length h" "c \<in> set (children (h ! r))"
  shows "set (preorder h c) \<subseteq> set (preorder h r)"
  using assms(3) by (subst preorder_bounded [OF assms(1,2)]) auto

lemma preorder_agree:
  assumes b: "childrenBounded h" and b': "childrenBounded h'" and len: "length h \<le> length h'"
    and same: "\<And>q. q < length h \<Longrightarrow> q \<noteq> p \<Longrightarrow> children (h' ! q) = children (h ! q)"
  shows "r < length h \<Longrightarrow> p \<notin> set (preorder h r) \<Longrightarrow> preorder h' r = preorder h r"
proof (induction "length h - r" arbitrary: r rule: less_induct)
  case less
  from less.prems(2) preorder_head [of r h] have rp: "r \<noteq> p" by blast
  have r': "r < length h'" using less.prems(1) len by simp
  have ch: "children (h' ! r) = children (h ! r)"
    using same [OF less.prems(1) rp] .
  have "map (preorder h') (children (h ! r)) = map (preorder h) (children (h ! r))"
  proof (rule map_cong [OF refl])
    fix c assume c: "c \<in> set (children (h ! r))"
    with b less.prems(1) have cb: "r < c" "c < length h"
      unfolding childrenBounded_def by blast+
    then have m: "length h - c < length h - r" by arith
    have "p \<notin> set (preorder h c)"
      using preorder_child [OF b less.prems(1) c] less.prems(2) by blast
    from less.hyps [OF m cb(2) this] show "preorder h' c = preorder h c" .
  qed
  then show ?case
    by (simp only: preorder_bounded [OF b less.prems(1)] preorder_bounded [OF b' r'] ch)
qed

lemma preorder_ge:
  assumes b: "childrenBounded h"
  shows "r < length h \<Longrightarrow> x \<in> set (preorder h r) \<Longrightarrow> r \<le> x"
proof (induction "length h - r" arbitrary: r rule: less_induct)
  case less
  from less.prems(2) have "x = r \<or> (\<exists>c \<in> set (children (h ! r)). x \<in> set (preorder h c))"
    by (subst (asm) preorder_bounded [OF b less.prems(1)]) auto
  then show ?case
  proof
    assume "x = r" then show ?thesis by simp
  next
    assume "\<exists>c \<in> set (children (h ! r)). x \<in> set (preorder h c)"
    then obtain c where c: "c \<in> set (children (h ! r))" "x \<in> set (preorder h c)" by blast
    with b less.prems(1) have cb: "r < c" "c < length h"
      unfolding childrenBounded_def by blast+
    then have m: "length h - c < length h - r" by arith
    from less.hyps [OF m cb(2) c(2)] cb(1) show ?thesis by simp
  qed
qed

lemma spine_last_in:
  assumes b: "childrenBounded h"
  shows "spine h rs stk \<Longrightarrow> stk \<noteq> [] \<Longrightarrow> \<forall>r \<in> set rs. r < length h \<Longrightarrow>
         last stk \<in> set (preorder h (last rs))"
proof (induction stk arbitrary: rs)
  case Nil
  then show ?case by simp
next
  case (Cons q ps)
  from Cons.prems(1) have rs: "rs \<noteq> []" "last rs = q" and sp: "spine h (children (h ! q)) ps"
    by simp_all
  from rs Cons.prems(3) have q: "q < length h"
    using last_in_set by blast
  show ?case
  proof (cases "ps = []")
    case True
    then show ?thesis using rs preorder_head [of q h] by simp
  next
    case False
    then obtain p2 ps2 where ps: "ps = p2 # ps2" by (cases ps) auto
    with sp have cne: "children (h ! q) \<noteq> []" by simp
    have cb: "\<forall>c \<in> set (children (h ! q)). c < length h"
      using b q unfolding childrenBounded_def by blast
    from Cons.IH [OF sp False cb] have "last ps \<in> set (preorder h (last (children (h ! q))))" .
    moreover have "last (children (h ! q)) \<in> set (children (h ! q))"
      using cne by (rule last_in_set)
    ultimately have "last ps \<in> set (preorder h q)"
      using preorder_child [OF b q] by blast
    then show ?thesis using False rs by simp
  qed
qed

lemma spine_prefix: "spine h rs (xs @ ys) \<Longrightarrow> spine h rs xs"
  by (induction xs arbitrary: rs) auto

lemma popStack_prefix: "\<exists>ys. stk = popStack stk ind @ ys"
proof (induction stk rule: rev_induct)
  case Nil
  then show ?case by (simp add: popStack_Nil)
next
  case (snoc x xs)
  then obtain ys where ys: "xs = popStack xs ind @ ys" by blast
  show ?case
  proof (cases "ind \<le> indent x")
    case True
    then have e: "popStack (xs @ [x]) ind = popStack xs ind"
      by (simp add: popStack_snoc)
    have "xs @ [x] = popStack xs ind @ (ys @ [x])"
      using ys by (metis append_assoc)
    then show ?thesis unfolding e by (rule exI)
  next
    case False
    then show ?thesis by (simp add: popStack_snoc)
  qed
qed

lemma distinct_concat_last:
  assumes "distinct (concat (map f (xs @ [y])))" "x \<in> set xs" "a \<in> set (f y)"
  shows "a \<notin> set (f x)"
proof
  assume "a \<in> set (f x)"
  with assms(2) have "a \<in> set (concat (map f xs))" by auto
  moreover from assms(1) have "set (concat (map f xs)) \<inter> set (f y) = {}"
    by simp
  ultimately show False using assms(3) by blast
qed

lemma spine_push:
  assumes b: "childrenBounded h" and b': "childrenBounded h'" and len: "length h' = Suc (length h)"
    and p: "p < length h"
    and chp: "children (h' ! p) = children (h ! p) @ [length h]"
    and same: "\<And>q. q < length h \<Longrightarrow> q \<noteq> p \<Longrightarrow> children (h' ! q) = children (h ! q)"
    and new: "children (h' ! length h) = []"
  shows "spine h rs stk \<Longrightarrow> stk \<noteq> [] \<Longrightarrow> last stk = p \<Longrightarrow> \<forall>r \<in> set rs. r < length h \<Longrightarrow>
         distinct (concat (map (preorder h) rs)) \<Longrightarrow>
         concat (map (preorder h') rs) = concat (map (preorder h) rs) @ [length h] \<and>
         spine h' rs (stk @ [length h])"
proof (induction stk arbitrary: rs)
  case Nil
  then show ?case by simp
next
  case (Cons q ps)
  let ?n = "length h"
  have le: "length h \<le> length h'" using len by simp
  have n': "?n < length h'" using len by simp
  have pre_new: "preorder h' ?n = [?n]"
    by (simp add: preorder_bounded [OF b' n'] new)
  from Cons.prems(1) have rs: "rs \<noteq> []" "last rs = q" and sp: "spine h (children (h ! q)) ps"
    by simp_all
  from rs Cons.prems(4) have q: "q < length h"
    using last_in_set by blast
  have q': "q < length h'" using q len by simp
  have cb: "\<forall>c \<in> set (children (h ! q)). q < c \<and> c < length h"
    using b q unfolding childrenBounded_def by blast
  obtain bs where rsq: "rs = bs @ [q]"
    using rs by (metis append_butlast_last_id)
  have pin: "p \<in> set (preorder h q)"
    using spine_last_in [OF b Cons.prems(1) _ Cons.prems(4)] Cons.prems(3) rs by simp
  have dbs: "distinct (concat (map (preorder h) (bs @ [q])))"
    using Cons.prems(5) by (simp only: rsq)
  then have dq: "distinct (preorder h q)"
    by simp
  have dc: "distinct (concat (map (preorder h) (children (h ! q))))"
    using dq by (simp add: preorder_bounded [OF b q])
  have others: "map (preorder h') bs = map (preorder h) bs"
  proof (rule map_cong [OF refl])
    fix r assume r: "r \<in> set bs"
    then have rl: "r < length h"
      using Cons.prems(4) by (simp add: rsq)
    from distinct_concat_last [OF dbs r pin] have "p \<notin> set (preorder h r)" .
    from preorder_agree [OF b b' le same rl this] show "preorder h' r = preorder h r" .
  qed
  have node: "preorder h' q = preorder h q @ [?n] \<and> spine h' (children (h' ! q)) (ps @ [?n])"
  proof (cases "ps = []")
    case True
    with Cons.prems(3) have qp: "q = p" by simp
    have m: "map (preorder h') (children (h ! p)) = map (preorder h) (children (h ! p))"
    proof (rule map_cong [OF refl])
      fix c assume c: "c \<in> set (children (h ! p))"
      with cb qp have cl: "p < c" "c < length h" by blast+
      have "p \<notin> set (preorder h c)"
        using preorder_ge [OF b cl(2)] cl(1) by fastforce
      from preorder_agree [OF b b' le same cl(2) this] show "preorder h' c = preorder h c" .
    qed
    have "preorder h' p = p # concat (map (preorder h') (children (h ! p) @ [?n]))"
      by (simp only: preorder_bounded [OF b' q' [unfolded qp]] chp)
    also have "\<dots> = p # concat (map (preorder h') (children (h ! p))) @ preorder h' ?n"
      by simp
    also have "\<dots> = p # concat (map (preorder h) (children (h ! p))) @ [?n]"
      by (simp only: m pre_new)
    also have "\<dots> = preorder h p @ [?n]"
      by (simp add: preorder_bounded [OF b p])
    finally have "preorder h' p = preorder h p @ [?n]" .
    moreover have "spine h' (children (h' ! p)) ([] @ [?n])"
      by (simp add: chp)
    ultimately show ?thesis using True qp by simp
  next
    case False
    then obtain p2 ps2 where ps: "ps = p2 # ps2" by (cases ps) auto
    with sp have cne: "children (h ! q) \<noteq> []" by simp
    have lp: "last ps = p" using Cons.prems(3) False by simp
    have cbl: "\<forall>c \<in> set (children (h ! q)). c < length h" using cb by blast
    have "p \<in> set (preorder h (last (children (h ! q))))"
      using spine_last_in [OF b sp False cbl] lp by simp
    moreover have lc: "last (children (h ! q)) \<in> set (children (h ! q))"
      using cne by (rule last_in_set)
    ultimately have "last (children (h ! q)) \<le> p"
      using preorder_ge [OF b] cbl by blast
    moreover have "q < last (children (h ! q))" using cb lc by blast
    ultimately have qp: "q \<noteq> p" by simp
    have ch: "children (h' ! q) = children (h ! q)"
      using same [OF q qp] .
    from Cons.IH [OF sp False lp cbl dc]
    have ih: "concat (map (preorder h') (children (h ! q))) =
                concat (map (preorder h) (children (h ! q))) @ [?n]"
      "spine h' (children (h ! q)) (ps @ [?n])"
      by blast+
    have "preorder h' q = preorder h q @ [?n]"
      by (simp add: preorder_bounded [OF b q] preorder_bounded [OF b' q'] ch ih(1))
    with ih(2) ch show ?thesis by simp
  qed
  have "concat (map (preorder h') (bs @ [q])) = concat (map (preorder h') bs) @ preorder h' q"
    by simp
  also have "\<dots> = concat (map (preorder h) bs) @ preorder h q @ [?n]"
    using node by (simp only: others)
  also have "\<dots> = concat (map (preorder h) (bs @ [q])) @ [?n]"
    by simp
  finally have "concat (map (preorder h') rs) = concat (map (preorder h) rs) @ [?n]"
    by (simp only: rsq)
  moreover have "spine h' rs ((q # ps) @ [?n])"
    using rs node by simp
  ultimately show ?case by blast
qed

lemma scanInvariant_bounded: "scanInvariant k st \<Longrightarrow> childrenBounded (heap st)"
  unfolding scanInvariant_def childrenBounded_def by blast

lemma traversalInvariant_initial: "traversalInvariant initialState"
  by (simp add: traversalInvariant_def flatten_def initialState_def)

lemma traversalInvariant_push:
  assumes inv: "scanInvariant k st" and tr: "traversalInvariant st"
    and s: "children s = []" "definingLine s = k"
  shows "traversalInvariant (pushSymbol (st\<lparr>heap := heap st @ [s]\<rparr>) (length (heap st)) ind)"
proof -
  let ?h = "heap st" and ?n = "length (heap st)" and ?rs = "symbols st"
  let ?stk = "popStack (stack st) ind"
  let ?st' = "pushSymbol (st\<lparr>heap := heap st @ [s]\<rparr>) (length (heap st)) ind"
  note i = inv_unfold [OF inv]
  note b = scanInvariant_bounded [OF inv]
  note b' = scanInvariant_bounded [OF scanInvariant_push [OF inv s, of ind]]
  from tr have fl: "concat (map (preorder ?h) ?rs) = [0..<?n]"
    and sp: "spine ?h ?rs (map symbol (stack st))"
    by (simp_all add: traversalInvariant_def flatten_def)
  have sk: "stack ?st' = ?stk @ [\<lparr>symbol = ?n, indent = ind\<rparr>]"
    by (simp add: pushSymbol_stack)
  have up: "[0..<?n] @ [?n] = [0..<Suc ?n]" by simp
  show ?thesis
  proof (cases "?stk = []")
    case True
    note eq = pushSymbol_new_root [OF True, of s]
    have hp: "heap ?st' = ?h @ [s]" and sy: "symbols ?st' = ?rs @ [?n]"
      by (simp_all add: eq)
    have b2: "childrenBounded (?h @ [s])" using b' by (simp only: hp)
    have n2: "?n < length (?h @ [s])" by simp
    have pre_new: "preorder (?h @ [s]) ?n = [?n]"
      by (simp add: preorder_bounded [OF b2 n2] s(1))
    have same: "children ((?h @ [s]) ! q) = children (?h ! q)" if "q < ?n" "q \<noteq> ?n" for q
      using that by (simp add: nth_append)
    have others: "map (preorder (?h @ [s])) ?rs = map (preorder ?h) ?rs"
    proof (rule map_cong [OF refl])
      fix r assume r: "r \<in> set ?rs"
      with i(1) have rl: "r < ?n" by blast
      have "set (preorder ?h r) \<subseteq> set (concat (map (preorder ?h) ?rs))"
        using r by auto
      then have "set (preorder ?h r) \<subseteq> {0..<?n}"
        by (simp only: fl set_upt)
      then have "?n \<notin> set (preorder ?h r)" by auto
      from preorder_agree [OF b b2 _ same rl this] show "preorder (?h @ [s]) r = preorder ?h r"
        by simp
    qed
    have "concat (map (preorder (?h @ [s])) (?rs @ [?n])) =
            concat (map (preorder (?h @ [s])) ?rs) @ preorder (?h @ [s]) ?n"
      by simp
    also have "\<dots> = [0..<?n] @ [?n]"
      by (simp only: others fl pre_new)
    finally have f: "flatten ?st' = [0..<length (heap ?st')]"
      by (simp only: flatten_def hp sy up length_append list.size) simp
    have "spine (?h @ [s]) (?rs @ [?n]) [?n]" by simp
    then have "spine (heap ?st') (symbols ?st') (map symbol (stack ?st'))"
      by (simp only: hp sy sk True) simp
    with f show ?thesis by (simp only: traversalInvariant_def simp_thms)
  next
    case False
    define p where "p = symbol (last ?stk)"
    have pin: "last ?stk \<in> set (stack st)"
      using False popStack_subset [of "stack st" ind] last_in_set by blast
    with i(2) have p: "p < ?n" by (simp add: p_def)
    define h' where "h' = addChild ?h p ?n @ [s]"
    have eq: "?st' = st\<lparr>heap := h', stack := ?stk @ [\<lparr>symbol = ?n, indent = ind\<rparr>]\<rparr>"
      using pushSymbol_new_child [OF False, of s] p by (simp add: p_def h'_def)
    have hp: "heap ?st' = h'" and sy: "symbols ?st' = ?rs"
      by (simp_all add: eq)
    have b2: "childrenBounded h'" using b' by (simp only: hp)
    have len: "length h' = Suc ?n" by (simp add: h'_def length_addChild)
    have chp: "children (h' ! p) = children (?h ! p) @ [?n]"
      using p by (simp add: h'_def nth_append length_addChild children_addChild)
    have same: "children (h' ! q) = children (?h ! q)" if "q < ?n" "q \<noteq> p" for q
      using that by (simp add: h'_def nth_append length_addChild children_addChild)
    have new: "children (h' ! ?n) = []"
      by (simp add: h'_def nth_append length_addChild s(1))
    obtain ys where ys: "stack st = ?stk @ ys"
      using popStack_prefix [of "stack st" ind] by blast
    have "spine ?h ?rs (map symbol ?stk @ map symbol ys)"
      using sp by (subst (asm) ys) simp
    then have sp1: "spine ?h ?rs (map symbol ?stk)"
      by (rule spine_prefix)
    have ne: "map symbol ?stk \<noteq> []" using False by simp
    have lst: "last (map symbol ?stk) = p"
      using False by (simp add: p_def last_map)
    have d: "distinct (concat (map (preorder ?h) ?rs))"
      by (simp only: fl distinct_upt)
    from spine_push [OF b b2 len p chp same new sp1 ne lst i(1) d]
    have r: "concat (map (preorder h') ?rs) = concat (map (preorder ?h) ?rs) @ [?n]"
      "spine h' ?rs (map symbol ?stk @ [?n])"
      by blast+
    have f: "flatten ?st' = [0..<length (heap ?st')]"
      by (simp only: flatten_def hp sy r(1) fl up len)
    have "spine (heap ?st') (symbols ?st') (map symbol (stack ?st'))"
      using r(2) by (simp only: hp sy sk) simp
    with f show ?thesis by (simp only: traversalInvariant_def simp_thms)
  qed
qed

lemma traversal_scanLine:
  assumes i: "i < length doc" and inv: "scanInvariant i st" and tr: "traversalInvariant st"
    and st': "scanLine doc st i = Inr st'"
  shows "traversalInvariant st'"
  using i
proof (cases rule: producedAt_cases)
  case none
  with st' tr show ?thesis
    by (simp add: scanLine_def lineAt_theLine [OF i])
next
  case (some s)
  have "scanLine doc st i =
      Inr (pushSymbol (st\<lparr>heap := heap st @ [s]\<rparr>) (length (heap st))
             (firstNonWhitespaceCharacterIndex (theLine doc i)))"
    using some(1) by (simp add: scanLine_def lineAt_theLine [OF i])
  with st' have "st' = pushSymbol (st\<lparr>heap := heap st @ [s]\<rparr>) (length (heap st))
             (firstNonWhitespaceCharacterIndex (theLine doc i))"
    by simp
  then show ?thesis
    using traversalInvariant_push [OF inv tr some(3,4)] by (simp only:)
qed

lemma traversal_scanLines:
  assumes "n \<le> length doc" "k \<le> n" "scanInvariant k st" "traversalInvariant st"
    "scanLines doc [k..<n] st = Inr st'"
  shows "traversalInvariant st'"
  using assms
proof (induction "n - k" arbitrary: k st)
  case 0
  then show ?case by simp
next
  case (Suc d)
  then have k: "k < n" "k < length doc" and d: "d = n - Suc k" "Suc k \<le> n" by arith+
  obtain st1 where st1: "scanLine doc st k = Inr st1" "scanInvariant (Suc k) st1"
    using scanLine_step [OF k(2) Suc.prems(3)] by blast
  note t1 = traversal_scanLine [OF k(2) Suc.prems(3,4) st1(1)]
  have "scanLines doc [Suc k..<n] st1 = Inr st'"
    using Suc.prems(5) k st1(1) by (simp add: upt_conv_Cons)
  from Suc.hyps(1) [OF d(1) Suc.prems(1) d(2) st1(2) t1 this] show ?case .
qed

lemma provideDocumentSymbols_flatten:
  assumes "provideDocumentSymbols doc = Inr st"
  shows "flatten st = [0..<length (heap st)]"
proof -
  have "scanLines doc [0..<length doc] initialState = Inr st"
    using assms by (simp add: provideDocumentSymbols_def)
  from traversal_scanLines [OF le_refl le0 scanInvariant_initial traversalInvariant_initial this]
  show ?thesis by (simp add: traversalInvariant_def)
qed

section \<open>The claims\<close>

subsection \<open>C1: the statement \<open>internalField uniform 0;\<close>\<close>

text \<open>
  The line \<open>internalField uniform 0;\<close> does not match the reserved-name pattern: after
  the keyword and the white space comes \<open>uniform\<close>, not \<open>{\<close>, \<open>;\<close> or the end of the line.
\<close>

theorem internalField_line_misses_reserved_pattern:
  "EDGES_REGEX (trim ''internalField uniform 0;'') = None"
  by code_simp

text \<open>
  A line that does match the reserved-name pattern, ends with \<open>;\<close> and has no \<open>{\<close> is
  skipped by \<open>continue\<close>; the later rules never see it, even where the key-value
  pattern would match.
\<close>

lemma reserved_statement_is_skipped:
  "EDGES_REGEX ''internalField  ;'' = Some ''internalField'' \<and>
   KV_REGEX ''internalField  ;'' = Some (''internalField'', '' '') \<and>
   lineSymbol [''internalField  ;''] 0 (theLine [''internalField  ;''] 0) = Inr None"
  by code_simp

text \<open>
  C1, as amended. In every document, a line whose trimmed text is
  \<open>internalField uniform 0;\<close> does not match the reserved-name pattern, and the scan
  creates exactly one node for it: a Property node named \<open>internalField\<close> with detail
  \<open>uniform 0\<close>, whose ranges are the line's range. The node is in the heap of the result.
\<close>

theorem internalField_statement_is_property:
  assumes "i < length doc" "trim (doc ! i) = ''internalField uniform 0;''"
  shows "EDGES_REGEX (trim (doc ! i)) = None \<and>
    producedAt doc i =
      [symbolNode ''internalField'' ''uniform 0'' Property (lineRange doc i) (lineRange doc i)] \<and>
    (\<exists>st. provideDocumentSymbols doc = Inr st \<and>
       symbolNode ''internalField'' ''uniform 0'' Property (lineRange doc i) (lineRange doc i)
         \<in> set (map clearChildren (heap st)))"
proof -
  note p = producedAt_internalField_line [OF assms(2)]
  have "symbolNode ''internalField'' ''uniform 0'' Property (lineRange doc i) (lineRange doc i)
          \<in> set (producedAt doc i)"
    by (simp only: p list.set insertI1)
  from produced_in_heap [OF assms(1) this] p internalField_line_facts(2) show ?thesis
    by (simp only: assms(2) simp_thms)
qed

theorem internalField_statement_is_property_witness:
  "provideDocumentSymbols [''internalField uniform 0;''] =
     Inr \<lparr>heap = [symbolNode ''internalField'' ''uniform 0'' Property
                    \<lparr>start = \<lparr>line = 0, character = 0\<rparr>, end_r = \<lparr>line = 0, character = 24\<rparr>\<rparr>
                    \<lparr>start = \<lparr>line = 0, character = 0\<rparr>, end_r = \<lparr>line = 0, character = 24\<rparr>\<rparr>],
          symbols = [0], stack = [\<lparr>symbol = 0, indent = 0\<rparr>]\<rparr> \<and>
   producedAt [''internalField uniform 0;''] 0 =
     [symbolNode ''internalField'' ''uniform 0'' Property
        \<lparr>start = \<lparr>line = 0, character = 0\<rparr>, end_r = \<lparr>line = 0, character = 24\<rparr>\<rparr>
        \<lparr>start = \<lparr>line = 0, character = 0\<rparr>, end_r = \<lparr>line = 0, character = 24\<rparr>\<rparr>]"
proof -
  have a: "0 < length [''internalField uniform 0;'']" by simp
  have b: "trim ([''internalField uniform 0;''] ! 0) = ''internalField uniform 0;''" by code_simp
  have r: "lineRange [''internalField uniform 0;''] 0 =
      \<lparr>start = \<lparr>line = 0, character = 0\<rparr>, end_r = \<lparr>line = 0, character = 24\<rparr>\<rparr>"
    by code_simp
  have e: "provideDocumentSymbols [''internalField uniform 0;''] =
     Inr \<lparr>heap = [symbolNode ''internalField'' ''uniform 0'' Property
                    \<lparr>start = \<lparr>line = 0, character = 0\<rparr>, end_r = \<lparr>line = 0, character = 24\<rparr>\<rparr>
                    \<lparr>start = \<lparr>line = 0, character = 0\<rparr>, end_r = \<lparr>line = 0, character = 24\<rparr>\<rparr>],
          symbols = [0], stack = [\<lparr>symbol = 0, indent = 0\<rparr>]\<rparr>"
    by code_simp
  from internalField_statement_is_property [OF a b] e show ?thesis
    by (simp only: r simp_thms)
qed

subsection \<open>C2: the unit-annotated constant\<close>

text \<open>
  For the document with the one line \<open>nu [0 2 -1 0 0 0 0] 1e-05;\<close> the entry point
  returns a Property node whose detail is \<open>[0 2 -1 0 0 0 0] 1e-05\<close>: the dictionary
  pattern does not match, since what follows the \<open>]\<close> is not a \<open>;\<close>.
\<close>

theorem unit_constant_with_value_is_property:
  "provideDocumentSymbols [''nu [0 2 -1 0 0 0 0] 1e-05;''] =
     Inr \<lparr>heap = [\<lparr>name = ''nu'', detail = ''[0 2 -1 0 0 0 0] 1e-05'', kind = Property,
                    range_s = \<lparr>start = \<lparr>line = 0, character = 0\<rparr>,
                               end_r = \<lparr>line = 0, character = 26\<rparr>\<rparr>,
                    selectionRange = \<lparr>start = \<lparr>line = 0, character = 0\<rparr>,
                                      end_r = \<lparr>line = 0, character = 26\<rparr>\<rparr>,
                    children = []\<rparr>],
          symbols = [0], stack = [\<lparr>symbol = 0, indent = 0\<rparr>]\<rparr> \<and>
   DICT_REGEX (trim ''nu [0 2 -1 0 0 0 0] 1e-05;'') = None \<and>
   Property \<noteq> Constant \<and> ''[0 2 -1 0 0 0 0] 1e-05'' \<noteq> ''0 2 -1 0 0 0 0''"
  by code_simp

text \<open>
  C2, as amended. In every document, a line whose trimmed text is
  \<open>nu [0 2 -1 0 0 0 0] 1e-05;\<close> yields one Property node named \<open>nu\<close> with detail
  \<open>[0 2 -1 0 0 0 0] 1e-05\<close>, and a line whose trimmed text is \<open>nu [0 2 -1 0 0 0 0];\<close>
  yields one Constant node named \<open>nu\<close> whose detail is the trimmed annotation put back
  between brackets, \<open>[0 2 -1 0 0 0 0]\<close>. The nodes of the line are in the heap of the
  result.
\<close>

theorem unit_annotation_lines:
  assumes "i < length doc"
  shows "(trim (doc ! i) = ''nu [0 2 -1 0 0 0 0] 1e-05;'' \<longrightarrow>
            producedAt doc i =
              [symbolNode ''nu'' ''[0 2 -1 0 0 0 0] 1e-05'' Property
                 (lineRange doc i) (lineRange doc i)]) \<and>
         (trim (doc ! i) = ''nu [0 2 -1 0 0 0 0];'' \<longrightarrow>
            producedAt doc i =
              [symbolNode ''nu'' ''[0 2 -1 0 0 0 0]'' Constant
                 (lineRange doc i) (lineRange doc i)]) \<and>
         (\<exists>st. provideDocumentSymbols doc = Inr st \<and>
            set (producedAt doc i) \<subseteq> set (map clearChildren (heap st)))"
proof -
  have "\<exists>st. provideDocumentSymbols doc = Inr st \<and>
            set (producedAt doc i) \<subseteq> set (map clearChildren (heap st))"
  proof -
    obtain st where st: "provideDocumentSymbols doc = Inr st"
        "map clearChildren (heap st) = concat (map (producedAt doc) [0..<length doc])"
      using provideDocumentSymbols_total [of doc] by blast
    have "set (producedAt doc i) \<subseteq> set (concat (map (producedAt doc) [0..<length doc]))"
      using assms by auto
    with st show ?thesis by (simp only: exI [of _ st] simp_thms)
  qed
  then show ?thesis
    using producedAt_nu_value_line [of doc i] producedAt_nu_unit_line [of doc i] by blast
qed

theorem unit_annotation_lines_witness:
  "producedAt [''nu [0 2 -1 0 0 0 0] 1e-05;'', ''nu [0 2 -1 0 0 0 0];''] 0 =
     [symbolNode ''nu'' ''[0 2 -1 0 0 0 0] 1e-05'' Property
        \<lparr>start = \<lparr>line = 0, character = 0\<rparr>, end_r = \<lparr>line = 0, character = 26\<rparr>\<rparr>
        \<lparr>start = \<lparr>line = 0, character = 0\<rparr>, end_r = \<lparr>line = 0, character = 26\<rparr>\<rparr>] \<and>
   producedAt [''nu [0 2 -1 0 0 0 0] 1e-05;'', ''nu [0 2 -1 0 0 0 0];''] 1 =
     [symbolNode ''nu'' ''[0 2 -1 0 0 0 0]'' Constant
        \<lparr>start = \<lparr>line = 1, character = 0\<rparr>, end_r = \<lparr>line = 1, character = 20\<rparr>\<rparr>
        \<lparr>start = \<lparr>line = 1, character = 0\<rparr>, end_r = \<lparr>line = 1, character = 20\<rparr>\<rparr>]"
proof -
  let ?D = "[''nu [0 2 -1 0 0 0 0] 1e-05;'', ''nu [0 2 -1 0 0 0 0];'']"
  have a: "0 < length ?D" "1 < length ?D" by simp_all
  have b: "trim (?D ! 0) = ''nu [0 2 -1 0 0 0 0] 1e-05;''" "trim (?D ! 1) = ''nu [0 2 -1 0 0 0 0];''"
    by code_simp+
  have r: "lineRange ?D 0 =
      \<lparr>start = \<lparr>line = 0, character = 0\<rparr>, end_r = \<lparr>line = 0, character = 26\<rparr>\<rparr>"
    "lineRange ?D 1 =
      \<lparr>start = \<lparr>line = 1, character = 0\<rparr>, end_r = \<lparr>line = 1, character = 20\<rparr>\<rparr>"
    by code_simp+
  from unit_annotation_lines [OF a(1)] unit_annotation_lines [OF a(2)] b show ?thesis
    by (simp only: r simp_thms)
qed

subsection \<open>C3: the look-ahead of the named-block rule\<close>

text \<open>
  Two documents on which the look-ahead of the specification finds an opening brace and
  the code skips the line \<open>name\<close>. In the first, four blank lines use up the window
  before the \<open>{\<close>. In the second, the line \<open>key value;\<close> ends the look-ahead although
  the \<open>{\<close> is the second line after \<open>name\<close> that is neither blank nor a comment.
\<close>

theorem lookahead_window_is_physical:
  "lookaheadAsSpecified [''name'', '''', '''', '''', '''', ''{'', ''}''] 0 \<and>
   NAMED_BLOCK_REGEX (trim ''name'') = Some ''name'' \<and>
   lineSymbol [''name'', '''', '''', '''', '''', ''{'', ''}''] 0
     (theLine [''name'', '''', '''', '''', '''', ''{'', ''}''] 0) = Inr None \<and>
   lookaheadAsSpecified [''name'', ''key value;'', ''{'', ''}''] 0 \<and>
   lineSymbol [''name'', ''key value;'', ''{'', ''}''] 0
     (theLine [''name'', ''key value;'', ''{'', ''}''] 0) = Inr None"
  by code_simp

text \<open>
  C3, as amended. For every document and every line that matches the named-identifier
  pattern, has no \<open>{\<close> and is not taken by the reserved-name rule, the look-ahead
  inspects the at most four lines that follow, blank and comment lines included; it
  finds an opening brace if and only if the first of those lines that is neither blank
  nor a comment starts with \<open>{\<close>. If it does, the line yields one node with the
  matched name; otherwise the line yields no node.
\<close>

theorem named_block_lookahead:
  assumes "i < length doc"
    and "NAMED_BLOCK_REGEX (trim (doc ! i)) = Some n"
    and "EDGES_REGEX (trim (doc ! i)) = None"
    and "\<not> includesChar (trim (doc ! i)) CHR ''{''"
  shows "foundOpeningBrace doc i (Suc i) = Inr (windowOpensBlock doc i) \<and>
         (if windowOpensBlock doc i then \<exists>s. producedAt doc i = [s] \<and> name s = n
          else lineSymbol doc i (theLine doc i) = Inr None)"
  using producedAt_named [OF assms] foundOpeningBrace_window [of doc i] by blast

theorem named_block_lookahead_witness:
  "windowOpensBlock [''name'', '''', '''', '''', ''{'', ''}''] 0 \<and>
   map name (producedAt [''name'', '''', '''', '''', ''{'', ''}''] 0) = [''name''] \<and>
   foundOpeningBrace [''name'', '''', '''', '''', ''{'', ''}''] 0 1 = Inr True"
proof -
  let ?D = "[''name'', '''', '''', '''', ''{'', ''}'']"
  have a: "0 < length ?D" by simp
  have b: "NAMED_BLOCK_REGEX (trim (?D ! 0)) = Some ''name''" "EDGES_REGEX (trim (?D ! 0)) = None"
    "\<not> includesChar (trim (?D ! 0)) CHR ''{''"
    by code_simp+
  have w: "windowOpensBlock ?D 0" by code_simp
  from named_block_lookahead [OF a b] w show ?thesis
    by auto
qed

subsection \<open>C4: the indents on the stack\<close>

text \<open>
  After the lines \<open>name\<close>, \<open>{\<close> and \<open>  key value;\<close> the stack holds the indents 0 and 2,
  from bottom to top: they are not non-increasing.
\<close>

theorem stack_indents_not_non_increasing:
  "stackIndentsAfter [''name'', ''{'', ''  key value;'', ''}'', ''''] 3 = Some [0, 2] \<and>
   \<not> sorted_wrt (\<ge>) [0 :: nat, 2]"
  by code_simp

text \<open>
  C4, as amended. For every document, after any number \<open>k\<close> of iterations of the driver
  loop the scan has not failed and the indents on the stack are strictly increasing
  from bottom to top; so are the indents of the \<open>m\<close> lowest entries, for every \<open>m\<close>,
  which is what the stack holds while \<open>pushSymbol\<close> pops.
\<close>

theorem stack_indents_strictly_increasing:
  assumes "k \<le> length doc"
  shows "\<exists>is. stackIndentsAfter doc k = Some is \<and> sorted_wrt (<) is \<and>
              (\<forall>m. sorted_wrt (<) (take m is))"
proof -
  obtain st where st: "scanLines doc [0..<k] initialState = Inr st" "scanInvariant k st"
    using scanLines_upt [OF assms le0 scanInvariant_initial] by blast
  note s = inv_unfold(7) [OF st(2)]
  have "sorted_wrt (<) (take m (map indent (stack st)))" for m
    using s by (rule sorted_wrt_take)
  with s show ?thesis
    using st(1) by (simp add: stackIndentsAfter_def)
qed

theorem stack_indents_strictly_increasing_witness:
  "stackIndentsAfter [''name'', ''{'', ''  key value;'', ''}'', ''''] 3 = Some [0, 2] \<and>
   sorted_wrt (<) [0 :: nat, 2]"
proof -
  have e: "stackIndentsAfter [''name'', ''{'', ''  key value;'', ''}'', ''''] 3 = Some [0, 2]"
    by code_simp
  have "3 \<le> length [''name'', ''{'', ''  key value;'', ''}'', '''']" by simp
  from stack_indents_strictly_increasing [OF this] e show ?thesis
    by auto
qed

subsection \<open>C5: a balanced block\<close>

text \<open>
  C5. The document \<open>name\n{\n  key value;\n}\n\<close> has the lines \<open>name\<close>, \<open>{\<close>,
  \<open>  key value;\<close>, \<open>}\<close> and, after the final line break, an empty line. The entry
  point returns one root: the node at reference 0, of kind Object, named \<open>name\<close>, whose
  range goes from the start of line 0 to the end of line 3. Its only child is the node
  at reference 1, of kind Property, named \<open>key\<close>, with detail \<open>value\<close> and no children.
\<close>

theorem balanced_block_round_trip:
  "provideDocumentSymbols [''name'', ''{'', ''  key value;'', ''}'', ''''] =
     Inr \<lparr>heap =
            [\<lparr>name = ''name'', detail = ''block'', kind = Object,
              range_s = \<lparr>start = \<lparr>line = 0, character = 0\<rparr>,
                         end_r = \<lparr>line = 3, character = 1\<rparr>\<rparr>,
              selectionRange = \<lparr>start = \<lparr>line = 0, character = 0\<rparr>,
                                end_r = \<lparr>line = 0, character = 4\<rparr>\<rparr>,
              children = [1]\<rparr>,
             \<lparr>name = ''key'', detail = ''value'', kind = Property,
              range_s = \<lparr>start = \<lparr>line = 2, character = 0\<rparr>,
                         end_r = \<lparr>line = 2, character = 12\<rparr>\<rparr>,
              selectionRange = \<lparr>start = \<lparr>line = 2, character = 0\<rparr>,
                                end_r = \<lparr>line = 2, character = 12\<rparr>\<rparr>,
              children = []\<rparr>],
          symbols = [0],
          stack = [\<lparr>symbol = 0, indent = 0\<rparr>, \<lparr>symbol = 1, indent = 2\<rparr>]\<rparr>"
  by code_simp

subsection \<open>C6: the fallback of the block-span resolver\<close>

text \<open>
  C6. The block-span resolver never fails, for any document, starting line, delimiter
  pair and initial count; and when the running count is different from 0 after every
  line from the starting line to the end of the document, it returns the index of the
  last line, \<open>lineCount - 1\<close>.
\<close>

theorem findClosingBracket_fallback:
  "(\<exists>r. findClosingBracket doc startLine openChar closeChar initialCount = Inr r) \<and>
   ((\<forall>j \<in> set [startLine..<length doc].
        openAfter doc openChar closeChar startLine initialCount j \<noteq> 0) \<longrightarrow>
    findClosingBracket doc startLine openChar closeChar initialCount = Inr (int (length doc) - 1))"
proof -
  have "find (\<lambda>k. openAfter doc openChar closeChar startLine initialCount k = 0)
          [startLine..<length doc] = None"
    if "\<forall>j \<in> set [startLine..<length doc].
          openAfter doc openChar closeChar startLine initialCount j \<noteq> 0"
    using that by (simp add: find_None_iff)
  then show ?thesis
    by (auto simp: findClosingBracket_def findClosingBracketLoop_char)
qed

theorem findClosingBracket_fallback_witness:
  "list_all (\<lambda>j. openAfter [''name'', ''{'', ''  key value;''] CHR ''{'' CHR ''}'' 1 0 j \<noteq> 0)
            [1..<length [''name'', ''{'', ''  key value;'']] \<and>
   findClosingBracket [''name'', ''{'', ''  key value;''] 1 CHR ''{'' CHR ''}'' 0 = Inr 2"
proof -
  have h: "\<forall>j \<in> set [1..<length [''name'', ''{'', ''  key value;'']].
      openAfter [''name'', ''{'', ''  key value;''] CHR ''{'' CHR ''}'' 1 0 j \<noteq> 0"
    by code_simp
  show ?thesis
    using h findClosingBracket_fallback [of "[''name'', ''{'', ''  key value;'']" 1 "CHR ''{''" "CHR ''}''" 0]
    by (simp add: list_all_iff)
qed

subsection \<open>C7: document order\<close>

text \<open>
  C7. For every document the entry point returns a tree whose flattening (each node
  followed by the subtrees of its children, the roots from left to right) visits the
  nodes on strictly increasing defining lines. In particular the roots, and the
  children of every node, are in the order of their defining lines: no node comes
  before a sibling that starts on an earlier line.
\<close>

theorem flattened_tree_in_document_order:
  "\<exists>st. provideDocumentSymbols doc = Inr st \<and>
     sorted_wrt (<) (definingLines st (flatten st)) \<and>
     sorted_wrt (<) (definingLines st (symbols st)) \<and>
     (\<forall>p < length (heap st). sorted_wrt (<) (definingLines st (children (heap st ! p))))"
proof -
  obtain st where st: "provideDocumentSymbols doc = Inr st" "scanInvariant (length doc) st"
    using provideDocumentSymbols_total [of doc] by blast
  note i = inv_unfold [OF st(2)]
  have "definingLines st [0..<length (heap st)] = map definingLine (heap st)"
    unfolding definingLines_def by (rule nth_equalityI) simp_all
  then have all: "sorted_wrt (<) (definingLines st (flatten st))"
    using i(8) by (simp only: provideDocumentSymbols_flatten [OF st(1)])
  have roots: "sorted_wrt (<) (definingLines st (symbols st))"
    unfolding definingLines_def by (rule sorted_refs_lines [OF i(4) i(1) i(8)])
  have kids: "sorted_wrt (<) (definingLines st (children (heap st ! p)))"
    if p: "p < length (heap st)" for p
  proof -
    have b: "\<forall>c \<in> set (children (heap st ! p)). c < length (heap st)"
      using i(3) p by blast
    have s: "sorted_wrt (<) (children (heap st ! p))"
      using i(5) p by blast
    show ?thesis
      unfolding definingLines_def by (rule sorted_refs_lines [OF s b i(8)])
  qed
  from st(1) all roots kids show ?thesis by blast
qed

theorem flattened_tree_in_document_order_witness:
  "\<exists>st. provideDocumentSymbols [''name'', ''{'', ''  key value;'', ''}'', ''''] = Inr st \<and>
     sorted_wrt (<) (definingLines st (flatten st)) \<and>
     sorted_wrt (<) (definingLines st (symbols st)) \<and>
     sorted_wrt (<) (definingLines st (children (heap st ! 0)))"
proof -
  obtain st where st: "provideDocumentSymbols [''name'', ''{'', ''  key value;'', ''}'', ''''] = Inr st"
     "sorted_wrt (<) (definingLines st (flatten st))"
     "sorted_wrt (<) (definingLines st (symbols st))"
     "\<forall>p < length (heap st). sorted_wrt (<) (definingLines st (children (heap st ! p)))"
    using flattened_tree_in_document_order [of "[''name'', ''{'', ''  key value;'', ''}'', '''']"]
    by blast
  from st(1) have "0 < length (heap st)"
    by (auto simp: example_scan)
  with st(4) have "sorted_wrt (<) (definingLines st (children (heap st ! 0)))"
    by blast
  with st(1,2,3) show ?thesis
    by blast
qed

subsection \<open>C8: no failure\<close>

text \<open>
  C8. For every document the entry point returns a result: neither \<open>lineAt\<close> nor the
  constructor of a node throws. The nodes of the heap are, in line order, the nodes
  that each line yields on its own, whatever the lines before it were, and every node
  of the heap is a root or a child of another node.
\<close>

theorem scan_runs_to_completion:
  "\<exists>st. provideDocumentSymbols doc = Inr st \<and>
     map clearChildren (heap st) = concat (map (producedAt doc) [0..<length doc]) \<and>
     set (symbols st @ concat (map children (heap st))) = {0..<length (heap st)}"
proof -
  obtain st where st: "provideDocumentSymbols doc = Inr st" "scanInvariant (length doc) st"
    "map clearChildren (heap st) = concat (map (producedAt doc) [0..<length doc])"
    using provideDocumentSymbols_total [of doc] by blast
  have "set (symbols st @ concat (map children (heap st))) = {0..<length (heap st)}"
    using mset_eq_setD [OF inv_unfold(6) [OF st(2)]] by (simp only: set_upt)
  with st(1,3) show ?thesis by blast
qed

text \<open>
  The instance for a document that starts with a stray \<open>}\<close>: the block after it and the
  attribute inside the block are both created.
\<close>

theorem scan_runs_to_completion_witness:
  "\<exists>st. provideDocumentSymbols [''}'', ''name'', ''{'', ''  key value;'', ''}''] = Inr st \<and>
     map clearChildren (heap st) =
       [symbolNode ''name'' ''block'' Object
          \<lparr>start = \<lparr>line = 1, character = 0\<rparr>, end_r = \<lparr>line = 4, character = 1\<rparr>\<rparr>
          \<lparr>start = \<lparr>line = 1, character = 0\<rparr>, end_r = \<lparr>line = 1, character = 4\<rparr>\<rparr>,
        symbolNode ''key'' ''value'' Property
          \<lparr>start = \<lparr>line = 3, character = 0\<rparr>, end_r = \<lparr>line = 3, character = 12\<rparr>\<rparr>
          \<lparr>start = \<lparr>line = 3, character = 0\<rparr>, end_r = \<lparr>line = 3, character = 12\<rparr>\<rparr>] \<and>
     set (symbols st @ concat (map children (heap st))) = {0..<length (heap st)}"
proof -
  have e: "concat (map (producedAt [''}'', ''name'', ''{'', ''  key value;'', ''}''])
             [0..<length [''}'', ''name'', ''{'', ''  key value;'', ''}'']]) =
       [symbolNode ''name'' ''block'' Object
          \<lparr>start = \<lparr>line = 1, character = 0\<rparr>, end_r = \<lparr>line = 4, character = 1\<rparr>\<rparr>
          \<lparr>start = \<lparr>line = 1, character = 0\<rparr>, end_r = \<lparr>line = 1, character = 4\<rparr>\<rparr>,
        symbolNode ''key'' ''value'' Property
          \<lparr>start = \<lparr>line = 3, character = 0\<rparr>, end_r = \<lparr>line = 3, character = 12\<rparr>\<rparr>
          \<lparr>start = \<lparr>line = 3, character = 0\<rparr>, end_r = \<lparr>line = 3, character = 12\<rparr>\<rparr>]"
    by code_simp
  show ?thesis
    using scan_runs_to_completion [of "[''}'', ''name'', ''{'', ''  key value;'', ''}'']"]
    by (simp only: e)
qed

text \<open>The whole result for that document: the attribute is the child of the block.\<close>

lemma stray_closer_example:
  "provideDocumentSymbols [''}'', ''name'', ''{'', ''  key value;'', ''}''] =
     Inr \<lparr>heap =
            [\<lparr>name = ''name'', detail = ''block'', kind = Object,
              range_s = \<lparr>start = \<lparr>line = 1, character = 0\<rparr>,
                         end_r = \<lparr>line = 4, character = 1\<rparr>\<rparr>,
              selectionRange = \<lparr>start = \<lparr>line = 1, character = 0\<rparr>,
                                end_r = \<lparr>line = 1, character = 4\<rparr>\<rparr>,
              children = [1]\<rparr>,
             \<lparr>name = ''key'', detail = ''value'', kind = Property,
              range_s = \<lparr>start = \<lparr>line = 3, character = 0\<rparr>,
                         end_r = \<lparr>line = 3, character = 12\<rparr>\<rparr>,
              selectionRange = \<lparr>start = \<lparr>line = 3, character = 0\<rparr>,
                                end_r = \<lparr>line = 3, character = 12\<rparr>\<rparr>,
              children = []\<rparr>],
          symbols = [0],
          stack = [\<lparr>symbol = 0, indent = 0\<rparr>, \<lparr>symbol = 1, indent = 2\<rparr>]\<rparr>"
  by code_simp

subsection \<open>C9: comments are skipped line by line\<close>

text \<open>
  C9. In every document, whatever the lines before and after it are, a line whose
  trimmed text is \<open>key value;\<close> is not skipped as blank or comment and yields one
  Property node named \<open>key\<close> with detail \<open>value\<close>, which is in the heap of the result.
  So it is for such a line between a line \<open>/*\<close> and a line \<open>*/\<close>.
\<close>

theorem comment_interior_line_is_classified:
  assumes "i < length doc" "trim (doc ! i) = ''key value;''"
  shows "\<not> blankOrComment (trim (doc ! i)) \<and>
    producedAt doc i =
      [symbolNode ''key'' ''value'' Property (lineRange doc i) (lineRange doc i)] \<and>
    (\<exists>st. provideDocumentSymbols doc = Inr st \<and>
       symbolNode ''key'' ''value'' Property (lineRange doc i) (lineRange doc i)
         \<in> set (map clearChildren (heap st)))"
proof -
  note p = producedAt_kv_line [OF assms(2)]
  have "symbolNode ''key'' ''value'' Property (lineRange doc i) (lineRange doc i)
          \<in> set (producedAt doc i)"
    by (simp only: p list.set insertI1)
  from produced_in_heap [OF assms(1) this] p kv_line_facts(1) show ?thesis
    by (simp only: assms(2) simp_thms)
qed

theorem comment_interior_line_is_classified_witness:
  "provideDocumentSymbols [''/*'', ''  key value;'', ''*/''] =
     Inr \<lparr>heap = [symbolNode ''key'' ''value'' Property
                    \<lparr>start = \<lparr>line = 1, character = 0\<rparr>, end_r = \<lparr>line = 1, character = 12\<rparr>\<rparr>
                    \<lparr>start = \<lparr>line = 1, character = 0\<rparr>, end_r = \<lparr>line = 1, character = 12\<rparr>\<rparr>],
          symbols = [0], stack = [\<lparr>symbol = 0, indent = 2\<rparr>]\<rparr> \<and>
   producedAt [''/*'', ''  key value;'', ''*/''] 1 =
     [symbolNode ''key'' ''value'' Property
        \<lparr>start = \<lparr>line = 1, character = 0\<rparr>, end_r = \<lparr>line = 1, character = 12\<rparr>\<rparr>
        \<lparr>start = \<lparr>line = 1, character = 0\<rparr>, end_r = \<lparr>line = 1, character = 12\<rparr>\<rparr>]"
proof -
  have a: "1 < length [''/*'', ''  key value;'', ''*/'']" by simp
  have b: "trim ([''/*'', ''  key value;'', ''*/''] ! 1) = ''key value;''" by code_simp
  have r: "lineRange [''/*'', ''  key value;'', ''*/''] 1 =
      \<lparr>start = \<lparr>line = 1, character = 0\<rparr>, end_r = \<lparr>line = 1, character = 12\<rparr>\<rparr>"
    by code_simp
  have e: "provideDocumentSymbols [''/*'', ''  key value;'', ''*/''] =
     Inr \<lparr>heap = [symbolNode ''key'' ''value'' Property
                    \<lparr>start = \<lparr>line = 1, character = 0\<rparr>, end_r = \<lparr>line = 1, character = 12\<rparr>\<rparr>
                    \<lparr>start = \<lparr>line = 1, character = 0\<rparr>, end_r = \<lparr>line = 1, character = 12\<rparr>\<rparr>],
          symbols = [0], stack = [\<lparr>symbol = 0, indent = 2\<rparr>]\<rparr>"
    by code_simp
  from comment_interior_line_is_classified [OF a b] e show ?thesis
    by (simp only: r simp_thms)
qed

subsection \<open>C10: every node once\<close>

text \<open>
  C10. For every document, the nodes of the heap are the nodes that the lines yield,
  in line order; the array of the roots and the children arrays together hold every
  reference of the heap exactly once; every child is created after its parent; and the
  flattening of the returned tree visits every node exactly once. The result is a
  forest.
\<close>

theorem every_node_inserted_once:
  "\<exists>st. provideDocumentSymbols doc = Inr st \<and>
     map clearChildren (heap st) = concat (map (producedAt doc) [0..<length doc]) \<and>
     distinct (symbols st @ concat (map children (heap st))) \<and>
     set (symbols st @ concat (map children (heap st))) = {0..<length (heap st)} \<and>
     childrenBounded (heap st) \<and>
     flatten st = [0..<length (heap st)]"
proof -
  obtain st where st: "provideDocumentSymbols doc = Inr st" "scanInvariant (length doc) st"
    "map clearChildren (heap st) = concat (map (producedAt doc) [0..<length doc])"
    using provideDocumentSymbols_total [of doc] by blast
  note i = inv_unfold [OF st(2)]
  have d: "distinct (symbols st @ concat (map children (heap st)))"
    using mset_eq_imp_distinct_iff [OF i(6)] by (simp only: distinct_upt)
  have s: "set (symbols st @ concat (map children (heap st))) = {0..<length (heap st)}"
    using mset_eq_setD [OF i(6)] by (simp only: set_upt)
  note b = scanInvariant_bounded [OF st(2)]
  note f = provideDocumentSymbols_flatten [OF st(1)]
  from st(1,3) d s b f show ?thesis by blast
qed

theorem every_node_inserted_once_witness:
  "\<exists>st. provideDocumentSymbols [''name'', ''{'', ''  key value;'', ''}'', ''''] = Inr st \<and>
     distinct (symbols st @ concat (map children (heap st))) \<and>
     set (symbols st @ concat (map children (heap st))) = {0..<length (heap st)} \<and>
     list_all (\<lambda>c. 0 < c \<and> c < length (heap st)) (children (heap st ! 0)) \<and>
     flatten st = [0..<length (heap st)]"
proof -
  obtain st where st: "provideDocumentSymbols [''name'', ''{'', ''  key value;'', ''}'', ''''] = Inr st"
     "distinct (symbols st @ concat (map children (heap st)))"
     "set (symbols st @ concat (map children (heap st))) = {0..<length (heap st)}"
     "childrenBounded (heap st)"
     "flatten st = [0..<length (heap st)]"
    using every_node_inserted_once [of "[''name'', ''{'', ''  key value;'', ''}'', '''']"] by blast
  from st(1) have "0 < length (heap st)"
    by (auto simp: example_scan)
  with st(4) have "\<forall>c \<in> set (children (heap st ! 0)). 0 < c \<and> c < length (heap st)"
    unfolding childrenBounded_def by blast
  then have "list_all (\<lambda>c. 0 < c \<and> c < length (heap st)) (children (heap st ! 0))"
    by (simp only: list_all_iff)
  with st(1,2,3,5) show ?thesis
    by blast
qed

end
